theory Spec2Isabelle
  imports Complex_Main "HOL-Library.AList"
begin

section \<open>Data model (src/types/scanTypes.ts)\<close>

text \<open>
  The canonical result shape. Field names carry a prefix because two records of one
  theory cannot share a field name: \<open>a_\<close> for \<open>Action\<close>, \<open>r_\<close> for \<open>Request\<close>,
  \<open>p_\<close> for \<open>Part\<close>, \<open>x_\<close> for \<open>ExtraPage\<close>. \<open>Part["type"]\<close> is the string union
  \<open>"html" | "js" | "css" | "image" | "font" | "other"\<close>. A JavaScript \<open>number\<close> that only
  ever holds an integer (\<open>status\<close>) is an \<open>int\<close>.
\<close>

datatype part_type = Html | Js | Css | Image | Font | Other

record Action =
  a_actionId :: string
  a_type :: string
  a_data :: string

record Request =
  r_actionId :: string
  r_url :: string
  r_requestSource :: string
  r_method :: string
  r_status :: int

record Part =
  p_id :: string
  p_type :: part_type
  p_actions :: "Action list"

record ExtraPage =
  x_url :: string
  x_parts :: "Part list"
  x_requests :: "Request list"

record ScanData =
  parts :: "Part list"
  requests :: "Request list"
  extraPages :: "ExtraPage list"

section \<open>The Aggregator (src/results/resultAggregator.ts)\<close>

text \<open>
  \<open>actionIdSet\<close> is a JavaScript \<open>Set<string>\<close>: it keeps insertion order and holds no
  element twice. It is a list that \<open>set_add\<close> extends only with a new element.
\<close>

record ResultAggregator =
  scanData :: ScanData
  actionIdSet :: "string list"

definition set_add :: "'a \<Rightarrow> 'a list \<Rightarrow> 'a list" where
  "set_add x xs = (if x \<in> set xs then xs else xs @ [x])"

definition new_aggregator :: ResultAggregator where
  "new_aggregator =
     \<lparr>scanData = \<lparr>parts = [], requests = [], extraPages = []\<rparr>, actionIdSet = []\<rparr>"

text \<open>
  \<open>parts.find((p) => p.id === partId)\<close> returns the first part with that id, and the
  following \<open>part.actions.push(action)\<close> mutates that very object inside the array:
  \<open>push_action\<close> rewrites the first part with the id in place.
\<close>

fun push_action :: "string \<Rightarrow> Action \<Rightarrow> Part list \<Rightarrow> Part list" where
  "push_action partId action [] = []"
| "push_action partId action (p # ps) =
     (if p_id p = partId then p\<lparr>p_actions := p_actions p @ [action]\<rparr> # ps
      else p # push_action partId action ps)"

text \<open>
  \<open>addAction(partId, action, partType = "html")\<close>: the optional third argument is an
  \<open>option\<close>, \<open>None\<close> when the caller leaves it out.
\<close>

definition addAction ::
  "string \<Rightarrow> Action \<Rightarrow> part_type option \<Rightarrow> ResultAggregator \<Rightarrow> ResultAggregator" where
  "addAction partId action partType agg =
     (let partType' = (case partType of None \<Rightarrow> Html | Some t \<Rightarrow> t);
          ps = parts (scanData agg);
          ps' = (case find (\<lambda>p. p_id p = partId) ps of
                   None \<Rightarrow> ps @ [\<lparr>p_id = partId, p_type = partType', p_actions = [action]\<rparr>]
                 | Some part \<Rightarrow> push_action partId action ps)
      in agg\<lparr>scanData := (scanData agg)\<lparr>parts := ps'\<rparr>,
             actionIdSet := set_add (a_actionId action) (actionIdSet agg)\<rparr>)"

definition addResourcePart ::
  "string \<Rightarrow> part_type \<Rightarrow> string \<Rightarrow> ResultAggregator \<Rightarrow> ResultAggregator" where
  "addResourcePart partId partType url agg =
     (case find (\<lambda>p. p_id p = partId) (parts (scanData agg)) of
        Some existingPart \<Rightarrow> agg
      | None \<Rightarrow>
          agg\<lparr>scanData := (scanData agg)\<lparr>parts := parts (scanData agg) @
                 [\<lparr>p_id = partId, p_type = partType, p_actions = []\<rparr>]\<rparr>\<rparr>)"

definition addRequest :: "Request \<Rightarrow> ResultAggregator \<Rightarrow> ResultAggregator" where
  "addRequest request agg =
     agg\<lparr>scanData := (scanData agg)\<lparr>requests := requests (scanData agg) @ [request]\<rparr>\<rparr>"

record Validation =
  linkedRequests :: nat
  unlinkedRequests :: nat
  totalActions :: nat

definition validateLinkage :: "ResultAggregator \<Rightarrow> Validation" where
  "validateLinkage agg =
     (let linked = length (filter (\<lambda>req. r_actionId req \<in> set (actionIdSet agg))
                                  (requests (scanData agg)))
      in \<lparr>linkedRequests = linked,
          unlinkedRequests = length (requests (scanData agg)) - linked,
          totalActions = length (actionIdSet agg)\<rparr>)"

definition getUnlinkedRequests :: "ResultAggregator \<Rightarrow> Request list" where
  "getUnlinkedRequests agg =
     filter (\<lambda>req. r_actionId req \<notin> set (actionIdSet agg)) (requests (scanData agg))"

text \<open>
  \<open>linkageRate\<close> is \<open>linkedRequests / requests.length * 100\<close> on JavaScript numbers.
  Both operands of the division are array lengths. A \<open>jsnumber\<close> is \<open>NaN\<close>, \<open>Infinity\<close>
  or a finite value; finite values are exact rationals here (the rounding of the
  double-precision result is left out: it is monotone and \<open>0\<close>, \<open>1\<close> and \<open>100\<close> are
  doubles, so it moves no value across the bounds stated below). A count divided by
  zero is \<open>NaN\<close> when the count is zero and \<open>Infinity\<close> otherwise; \<open>NaN * 100\<close> is
  \<open>NaN\<close>, and every comparison with \<open>NaN\<close> is false.
\<close>

datatype jsnumber = NaN | Infinity | Finite rat

definition js_div :: "nat \<Rightarrow> nat \<Rightarrow> jsnumber" where
  "js_div a b =
     (if b = 0 then (if a = 0 then NaN else Infinity) else Finite (of_nat a / of_nat b))"

fun js_times100 :: "jsnumber \<Rightarrow> jsnumber" where
  "js_times100 NaN = NaN"
| "js_times100 Infinity = Infinity"
| "js_times100 (Finite q) = Finite (q * 100)"

fun js_le :: "jsnumber \<Rightarrow> jsnumber \<Rightarrow> bool" where
  "js_le (Finite a) (Finite b) = (a \<le> b)"
| "js_le (Finite a) Infinity = True"
| "js_le Infinity Infinity = True"
| "js_le x y = False"

record LinkageStats =
  s_linkedRequests :: nat
  s_unlinkedRequests :: nat
  s_totalActions :: nat
  linkageRate :: jsnumber
  unlinkedRequestSample :: "Request list"

definition getLinkageStats :: "ResultAggregator \<Rightarrow> LinkageStats" where
  "getLinkageStats agg =
     (let validation = validateLinkage agg;
          unlinked = getUnlinkedRequests agg
      in \<lparr>s_linkedRequests = linkedRequests validation,
          s_unlinkedRequests = unlinkedRequests validation,
          s_totalActions = totalActions validation,
          linkageRate =
            js_times100 (js_div (linkedRequests validation) (length (requests (scanData agg)))),
          unlinkedRequestSample = take 5 unlinked\<rparr>)"


section \<open>Strings and numbers of the JavaScript runtime\<close>

text \<open>
  A template literal renders an integer in decimal. \<open>Date.now()\<close> is a count of
  milliseconds, a natural number here; \<open>indexOf\<close> may return \<open>-1\<close>, so \<open>show_int\<close>
  renders a sign.
\<close>

definition digit_char :: "nat \<Rightarrow> char" where
  "digit_char d = ''0123456789'' ! d"

fun show_nat :: "nat \<Rightarrow> string" where
  "show_nat n = (if n < 10 then [digit_char n] else show_nat (n div 10) @ [digit_char (n mod 10)])"

declare show_nat.simps [simp del]

definition show_int :: "int \<Rightarrow> string" where
  "show_int i = (if i < 0 then CHR ''-'' # show_nat (nat (- i)) else show_nat (nat i))"

text \<open>\<open>s.split('_')\<close>: the pieces between the separators, one piece for a string without any.\<close>

fun split_on :: "char \<Rightarrow> string \<Rightarrow> string list" where
  "split_on c [] = [[]]"
| "split_on c (x # xs) =
     (if x = c then [] # split_on c xs
      else (case split_on c xs of [] \<Rightarrow> [[x]] | p # ps \<Rightarrow> (x # p) # ps))"

text \<open>
  \<open>parseInt(s)\<close> without a radix: leading white space is skipped, a sign is read, a
  \<open>0x\<close> or \<open>0X\<close> prefix selects base sixteen, and the longest run of digits of the base
  is the value; without a digit the result is \<open>NaN\<close> (\<open>None\<close>). White space is the ASCII
  white space, and the value is exact (a double is exact up to \<open>2^53\<close>).
\<close>

definition digit_value :: "char \<Rightarrow> nat option" where
  "digit_value c = map_of
     [(CHR ''0'', 0), (CHR ''1'', 1), (CHR ''2'', 2), (CHR ''3'', 3), (CHR ''4'', 4),
      (CHR ''5'', 5), (CHR ''6'', 6), (CHR ''7'', 7), (CHR ''8'', 8), (CHR ''9'', 9),
      (CHR ''a'', 10), (CHR ''b'', 11), (CHR ''c'', 12), (CHR ''d'', 13), (CHR ''e'', 14),
      (CHR ''f'', 15), (CHR ''A'', 10), (CHR ''B'', 11), (CHR ''C'', 12), (CHR ''D'', 13),
      (CHR ''E'', 14), (CHR ''F'', 15)] c"

definition is_digit_of :: "nat \<Rightarrow> char \<Rightarrow> bool" where
  "is_digit_of radix c = (case digit_value c of None \<Rightarrow> False | Some d \<Rightarrow> d < radix)"

definition digits_value :: "nat \<Rightarrow> string \<Rightarrow> nat" where
  "digits_value radix ds =
     foldl (\<lambda>acc c. acc * radix + (case digit_value c of None \<Rightarrow> 0 | Some d \<Rightarrow> d)) 0 ds"

definition is_space :: "char \<Rightarrow> bool" where
  "is_space c = (c \<in> set [CHR '' '', CHR 0x09, CHR 0x0A, CHR 0x0B, CHR 0x0C, CHR 0x0D])"

definition parse_digits :: "nat \<Rightarrow> string \<Rightarrow> nat option" where
  "parse_digits radix s =
     (let ds = takeWhile (is_digit_of radix) s
      in if ds = [] then None else Some (digits_value radix ds))"

definition parse_unsigned :: "string \<Rightarrow> nat option" where
  "parse_unsigned s =
     (if take 2 s = ''0x'' \<or> take 2 s = ''0X'' then parse_digits 16 (drop 2 s)
      else parse_digits 10 s)"

definition parseInt :: "string \<Rightarrow> int option" where
  "parseInt s =
     (case dropWhile is_space s of
        [] \<Rightarrow> None
      | c # cs \<Rightarrow>
          if c = CHR ''-'' then map_option (\<lambda>n. - int n) (parse_unsigned cs)
          else if c = CHR ''+'' then map_option int (parse_unsigned cs)
          else map_option int (parse_unsigned (c # cs)))"

section \<open>Identifiers\<close>

text \<open>
  Every generated id is \<open>`<prefix>_${Date.now()}_${Math.random().toString(36).substr(2, 9)}`\<close>.
  The clock reading \<open>now\<close> and the random suffix \<open>rnd\<close> are inputs of the model. A
  cause gets the prefix \<open>action\<close> (\<open>InputMonitor\<close>), a request without a cause the
  prefix \<open>http\<close>, a failed request without a cause and without a request record the
  prefix \<open>failed\<close> (\<open>RequestMonitor\<close>).
\<close>

definition gen_id :: "string \<Rightarrow> nat \<Rightarrow> string \<Rightarrow> string" where
  "gen_id pre now rnd = pre @ ''_'' @ show_nat now @ ''_'' @ rnd"

definition action_id :: "nat \<Rightarrow> string \<Rightarrow> string" where
  "action_id now rnd = gen_id ''action'' now rnd"

definition http_id :: "nat \<Rightarrow> string \<Rightarrow> string" where
  "http_id now rnd = gen_id ''http'' now rnd"

definition failed_id :: "nat \<Rightarrow> string \<Rightarrow> string" where
  "failed_id now rnd = gen_id ''failed'' now rnd"


section \<open>The instrumented page (the scripts that \<open>InputMonitor.setup\<close> and \<open>RequestMonitor.setup\<close> inject)\<close>

text \<open>
  The page keeps the causal context in two globals, \<open>window.__actionIdStack\<close> (the top
  is the last element) and \<open>window.__currentActionId\<close> (\<open>undefined\<close> is \<open>None\<close>). An
  \<open>XMLHttpRequest\<close> object is known by a number; the wrapper of \<open>open\<close> stores
  \<open>_capturedActionId\<close> and \<open>_requestUrl\<close> on it.
\<close>

record xhr =
  capturedActionId :: "string option"
  requestUrl :: string

record window =
  actionIdStack :: "string list"
  currentActionId :: "string option"
  xhrs :: "(nat \<times> xhr) list"

text \<open>
  The label of the element a hook fires on: \<open>id=...\<close>, else \<open>name=...\<close>, else
  \<open>element=<tag>[<index>]\<close>, where the tag is \<open>tagName.toLowerCase()\<close> and the index is
  the element's position among the elements of that tag (\<open>-1\<close> when \<open>indexOf\<close> does not
  find it).
\<close>

record element =
  el_id :: string
  el_name :: string
  el_tag :: string
  el_index :: int

definition element_label :: "element \<Rightarrow> string" where
  "element_label el =
     (if el_id el \<noteq> [] then ''id='' @ el_id el
      else if el_name el \<noteq> [] then ''name='' @ el_name el
      else ''element='' @ el_tag el @ ''['' @ show_int (el_index el) @ '']'')"

text \<open>Both hooks push the new cause and make it current.\<close>

definition push_context :: "string \<Rightarrow> window \<Rightarrow> window" where
  "push_context actionId w =
     w\<lparr>actionIdStack := actionIdStack w @ [actionId], currentActionId := Some actionId\<rparr>"

text \<open>
  The callback both hooks hand to \<open>setTimeout(..., 100)\<close>, closed over the \<open>actionId\<close> of
  its cause.
\<close>

definition context_cleanup :: "string \<Rightarrow> window \<Rightarrow> window" where
  "context_cleanup actionId w =
     (if length (actionIdStack w) > 0 \<and> last (actionIdStack w) = actionId
      then (let st = butlast (actionIdStack w)
            in w\<lparr>actionIdStack := st,
                 currentActionId := (if length st > 0 then Some (last st) else None)\<rparr>)
      else w)"

text \<open>\<open>XMLHttpRequest.prototype.open\<close>: the context is captured when the request is opened.\<close>

definition xhr_open :: "nat \<Rightarrow> string \<Rightarrow> window \<Rightarrow> window" where
  "xhr_open x url w =
     w\<lparr>xhrs := AList.update x \<lparr>capturedActionId = currentActionId w, requestUrl = url\<rparr> (xhrs w)\<rparr>"

text \<open>The first argument of \<open>fetch\<close> and the url the wrapper extracts from it.\<close>

datatype fetch_input = InputString string | InputURL string | InputRequest string | InputOther string

fun input_url :: "fetch_input \<Rightarrow> string" where
  "input_url (InputString s) = s"
| "input_url (InputURL href) = href"
| "input_url (InputRequest url) = url"
| "input_url (InputOther s) = s"

section \<open>The host (\<open>InputMonitor\<close> in src/monitors/inputMonitor.ts, \<open>RequestMonitor\<close> in src/scanner.ts)\<close>

text \<open>
  \<open>urlActionMappings\<close> and \<open>pendingRequests\<close> are JavaScript \<open>Map\<close>s: association lists
  in insertion order, where \<open>set\<close> on a key already present replaces the value where it
  stands and a new key goes to the end (\<open>AList.update\<close>). A pending entry holds a
  reference to the request record that is also in the aggregator's \<open>requests\<close> array.
  Records are only ever appended to that array, so a reference is the record's index in
  it, and writing \<open>record.status\<close> through the reference is an update at that index.
\<close>

definition map_rebuild :: "(string \<times> string) list \<Rightarrow> (string \<times> string) list" where
  "map_rebuild entries = foldl (\<lambda>m (u, a). AList.update u a m) [] entries"

definition slice_last :: "nat \<Rightarrow> 'a list \<Rightarrow> 'a list" where
  "slice_last n xs = drop (length xs - n) xs"

definition reportRequestMapping ::
  "string \<Rightarrow> string \<Rightarrow> (string \<times> string) list \<Rightarrow> (string \<times> string) list" where
  "reportRequestMapping url actionId m =
     (let m' = AList.update url actionId m
      in if length m' > 1000 then map_rebuild (slice_last 500 m') else m')"

text \<open>
  \<open>reportInputAccess(type, data, actionId?)\<close>: the host generates an id only when the
  page passes none (or an empty one); \<open>now\<close> and \<open>rnd\<close> are the host's clock reading
  and random suffix for that case.
\<close>

definition reportInputAccess ::
  "string \<Rightarrow> string \<Rightarrow> string option \<Rightarrow> nat \<Rightarrow> string \<Rightarrow> ResultAggregator \<Rightarrow> ResultAggregator" where
  "reportInputAccess ty dat actionId now rnd agg =
     (let finalActionId = (case actionId of
                             Some i \<Rightarrow> if i \<noteq> [] then i else action_id now rnd
                           | None \<Rightarrow> action_id now rnd)
      in addAction ''part_html_main''
           \<lparr>a_actionId = finalActionId, a_type = ty, a_data = dat\<rparr> (Some Html) agg)"

text \<open>\<open>resourceTypeMap[puppeteerResourceType] || 'other'\<close>.\<close>

definition resourceTypeMap :: "string \<Rightarrow> part_type" where
  "resourceTypeMap t =
     (if t = ''document'' then Html
      else if t = ''script'' then Js
      else if t = ''stylesheet'' then Css
      else if t = ''image'' then Image
      else if t = ''font'' then Font
      else Other)"

fun type_name :: "part_type \<Rightarrow> string" where
  "type_name Html = ''html''"
| "type_name Js = ''js''"
| "type_name Css = ''css''"
| "type_name Image = ''image''"
| "type_name Font = ''font''"
| "type_name Other = ''other''"

text \<open>
  What the page does to the world outside it, in the order it does it: a call of the
  bridge function \<open>window.reportRequestMapping(url, actionId)\<close>, and a call of the
  original \<open>fetch\<close> or the original \<open>XMLHttpRequest.prototype.send\<close>, which hands the
  request to the transport.
\<close>

datatype effect = MappingReported string string | FetchDispatched fetch_input | XhrDispatched nat

text \<open>
  One scan: the page, the aggregator that \<open>InputMonitor\<close> and \<open>RequestMonitor\<close> share,
  the three maps of \<open>RequestMonitor\<close>, and the effects of the page so far. A call of an
  exposed bridge function takes effect in the host at the call.
\<close>

record scanner =
  page :: window
  aggregator :: ResultAggregator
  resourcePartCounter :: "(part_type \<times> nat) list"
  pendingRequests :: "(string \<times> nat) list"
  urlActionMappings :: "(string \<times> string) list"
  effects :: "effect list"


definition new_scanner :: scanner where
  "new_scanner =
     \<lparr>page = \<lparr>actionIdStack = [], currentActionId = None, xhrs = []\<rparr>,
      aggregator = new_aggregator,
      resourcePartCounter = [],
      pendingRequests = [],
      urlActionMappings = [],
      effects = []\<rparr>"

subsection \<open>Hooks of the page\<close>

text \<open>
  The getter of \<open>HTMLInputElement.prototype.value\<close> and the wrapper that
  \<open>addEventListener\<close> installs around a handler. Both generate the id of the cause, push
  it, report the action through \<open>window.reportInputAccess\<close> and schedule
  \<open>context_cleanup\<close> for their id; the wrapped handler itself runs between the report
  and the scheduling, and what it does are the events that follow. The wrapper's
  \<open>actionType\<close> and \<open>elementId\<close> are fixed when the listener is registered.
\<close>

definition value_getter :: "element \<Rightarrow> nat \<Rightarrow> string \<Rightarrow> scanner \<Rightarrow> scanner" where
  "value_getter el now rnd s =
     (let inputId = element_label el;
          actionId = action_id now rnd
      in s\<lparr>page := push_context actionId (page s),
           aggregator :=
             reportInputAccess ''input.value'' inputId (Some actionId) now rnd (aggregator s)\<rparr>)"

definition wrapped_handler :: "string \<Rightarrow> string \<Rightarrow> nat \<Rightarrow> string \<Rightarrow> scanner \<Rightarrow> scanner" where
  "wrapped_handler actionType elementId now rnd s =
     (let actionId = action_id now rnd
      in s\<lparr>page := push_context actionId (page s),
           aggregator :=
             reportInputAccess actionType elementId (Some actionId) now rnd (aggregator s)\<rparr>)"

text \<open>
  The wrappers of \<open>fetch\<close> and \<open>XMLHttpRequest.prototype.send\<close>. Either reports the
  url when the context it reads is truthy (a string that is not empty; \<open>undefined\<close> is
  not), then calls the original function with its arguments unchanged. (Both also store the context in a \<open>WeakMap\<close> that nothing reads;
  it is left out.) \<open>window.reportRequestMapping\<close> and \<open>window.reportInputAccess\<close> are
  the functions \<open>setup\<close> exposes before the page loads, so the wrappers find them.
\<close>

definition report_mapping :: "string \<Rightarrow> string \<Rightarrow> scanner \<Rightarrow> scanner" where
  "report_mapping url actionId s =
     s\<lparr>urlActionMappings := reportRequestMapping url actionId (urlActionMappings s),
       effects := effects s @ [MappingReported url actionId]\<rparr>"

definition fetch_wrapper :: "fetch_input \<Rightarrow> scanner \<Rightarrow> scanner" where
  "fetch_wrapper input s =
     (let url = input_url input;
          s1 = (case currentActionId (page s) of
                  Some a \<Rightarrow> if a \<noteq> [] then report_mapping url a s else s
                | None \<Rightarrow> s)
      in s1\<lparr>effects := effects s1 @ [FetchDispatched input]\<rparr>)"

definition xhr_send :: "nat \<Rightarrow> scanner \<Rightarrow> scanner" where
  "xhr_send x s =
     (let s1 = (case map_of (xhrs (page s)) x of
                  None \<Rightarrow> s
                | Some r \<Rightarrow>
                    (case capturedActionId r of
                       Some a \<Rightarrow> if a \<noteq> [] then report_mapping (requestUrl r) a s else s
                     | None \<Rightarrow> s))
      in s1\<lparr>effects := effects s1 @ [XhrDispatched x]\<rparr>)"

subsection \<open>Observers of the host\<close>

definition createResourcePart :: "string \<Rightarrow> string \<Rightarrow> scanner \<Rightarrow> scanner" where
  "createResourcePart url puppeteerResourceType s =
     (let resourceType = resourceTypeMap puppeteerResourceType
      in if resourceType = Html then s
         else (let counter = (case map_of (resourcePartCounter s) resourceType of
                                None \<Rightarrow> 0 | Some c \<Rightarrow> c);
                   partId = ''part_'' @ type_name resourceType @ ''_'' @ show_nat (counter + 1)
               in s\<lparr>resourcePartCounter :=
                      AList.update resourceType (counter + 1) (resourcePartCounter s),
                    aggregator := addResourcePart partId resourceType url (aggregator s)\<rparr>))"

definition on_request ::
  "string \<Rightarrow> string \<Rightarrow> string \<Rightarrow> string \<Rightarrow> nat \<Rightarrow> string \<Rightarrow> scanner \<Rightarrow> scanner" where
  "on_request requestId url resourceType meth now rnd s =
     (let actionId = (case map_of (urlActionMappings s) url of
                        Some a \<Rightarrow> a | None \<Rightarrow> http_id now rnd);
          s1 = createResourcePart url resourceType s;
          requestRecord = \<lparr>r_actionId = actionId, r_url = url, r_requestSource = resourceType,
                           r_method = meth, r_status = - 1\<rparr>;
          ref = length (requests (scanData (aggregator s1)))
      in s1\<lparr>pendingRequests := AList.update requestId ref (pendingRequests s1),
            aggregator := addRequest requestRecord (aggregator s1)\<rparr>)"

text \<open>\<open>record.status = v\<close> through a reference.\<close>

definition set_status :: "nat \<Rightarrow> int \<Rightarrow> ResultAggregator \<Rightarrow> ResultAggregator" where
  "set_status ref v agg =
     agg\<lparr>scanData := (scanData agg)\<lparr>requests :=
            (requests (scanData agg))[ref := (requests (scanData agg) ! ref)\<lparr>r_status := v\<rparr>]\<rparr>\<rparr>"

fun first_index :: "('a \<Rightarrow> bool) \<Rightarrow> 'a list \<Rightarrow> nat option" where
  "first_index P [] = None"
| "first_index P (x # xs) = (if P x then Some 0 else map_option Suc (first_index P xs))"

text \<open>The status code of a response is a natural number.\<close>

definition on_response :: "string \<Rightarrow> string \<Rightarrow> nat \<Rightarrow> scanner \<Rightarrow> scanner" where
  "on_response requestId url status s =
     (case map_of (pendingRequests s) requestId of
        Some ref \<Rightarrow>
          s\<lparr>aggregator := set_status ref (int status) (aggregator s),
            pendingRequests := AList.delete requestId (pendingRequests s)\<rparr>
      | None \<Rightarrow>
          (case first_index (\<lambda>r. r_url r = url \<and> r_status r = - 1)
                  (requests (scanData (aggregator s))) of
             Some i \<Rightarrow> s\<lparr>aggregator := set_status i (int status) (aggregator s)\<rparr>
           | None \<Rightarrow> s))"

definition on_requestfailed ::
  "string \<Rightarrow> string \<Rightarrow> string \<Rightarrow> string \<Rightarrow> nat \<Rightarrow> string \<Rightarrow> scanner \<Rightarrow> scanner" where
  "on_requestfailed requestId url resourceType meth now rnd s =
     (case map_of (pendingRequests s) requestId of
        Some ref \<Rightarrow>
          s\<lparr>aggregator := set_status ref (- 999) (aggregator s),
            pendingRequests := AList.delete requestId (pendingRequests s)\<rparr>
      | None \<Rightarrow>
          (let actionId = (case map_of (urlActionMappings s) url of
                             Some a \<Rightarrow> a | None \<Rightarrow> failed_id now rnd);
               requestRecord = \<lparr>r_actionId = actionId, r_url = url,
                                r_requestSource = resourceType, r_method = meth,
                                r_status = - 999\<rparr>
           in s\<lparr>aggregator := addRequest requestRecord (aggregator s)\<rparr>))"

text \<open>
  The \<open>setInterval\<close> callback. A pending entry goes when the second \<open>_\<close>-separated field
  of its record's \<open>actionId\<close> parses to a number that is truthy (neither \<open>NaN\<close> nor
  zero) and lies before \<open>Date.now() - 5 * 60 * 1000\<close>.
\<close>

definition stale :: "int \<Rightarrow> Request \<Rightarrow> bool" where
  "stale fiveMinutesAgo request =
     (let actionIdParts = split_on (CHR ''_'') (r_actionId request)
      in length actionIdParts > 1 \<and>
         (case parseInt (actionIdParts ! 1) of
            None \<Rightarrow> False
          | Some timestamp \<Rightarrow> timestamp \<noteq> 0 \<and> timestamp < fiveMinutesAgo))"

definition cleanup :: "nat \<Rightarrow> scanner \<Rightarrow> scanner" where
  "cleanup now s =
     (let fiveMinutesAgo = int now - 5 * 60 * 1000;
          rs = requests (scanData (aggregator s));
          m = urlActionMappings s
      in s\<lparr>pendingRequests :=
              filter (\<lambda>(key, ref). \<not> stale fiveMinutesAgo (rs ! ref)) (pendingRequests s),
           urlActionMappings :=
              (if length m > 50 then map_rebuild (slice_last 25 m) else m)\<rparr>)"

subsection \<open>Runs\<close>

text \<open>
  The page and the host run on event loops: a run of the scan is a sequence of events,
  each handled to completion. The clock reading and the random suffix an event's handler
  draws, and what the transport reports (request id, url, resource type, method, status
  code), are the event's arguments. \<open>CleanupTimer a\<close> is the timer of the cause \<open>a\<close>
  firing; \<open>Housekeeping now\<close> is the host's interval timer firing at time \<open>now\<close>.
\<close>

datatype event =
    ValueRead element nat string
  | HandlerFired string string nat string
  | CleanupTimer string
  | Fetch fetch_input
  | XhrOpen nat string
  | XhrSend nat
  | RequestSeen string string string string nat string
  | ResponseSeen string string nat
  | RequestFailed string string string string nat string
  | Housekeeping nat

fun step :: "scanner \<Rightarrow> event \<Rightarrow> scanner" where
  "step s (ValueRead el now rnd) = value_getter el now rnd s"
| "step s (HandlerFired actionType elementId now rnd) =
     wrapped_handler actionType elementId now rnd s"
| "step s (CleanupTimer actionId) = s\<lparr>page := context_cleanup actionId (page s)\<rparr>"
| "step s (Fetch input) = fetch_wrapper input s"
| "step s (XhrOpen x url) = s\<lparr>page := xhr_open x url (page s)\<rparr>"
| "step s (XhrSend x) = xhr_send x s"
| "step s (RequestSeen requestId url resourceType meth now rnd) =
     on_request requestId url resourceType meth now rnd s"
| "step s (ResponseSeen requestId url status) = on_response requestId url status s"
| "step s (RequestFailed requestId url resourceType meth now rnd) =
     on_requestfailed requestId url resourceType meth now rnd s"
| "step s (Housekeeping now) = cleanup now s"

definition run :: "scanner \<Rightarrow> event list \<Rightarrow> scanner" where
  "run s es = foldl step s es"

section \<open>Sequences of aggregator calls\<close>

text \<open>
  The aggregator's three mutators as data, so that a statement can speak of every
  sequence of calls. \<open>actions_for partId cs\<close> lists the actions that the \<open>addAction\<close>
  calls of \<open>cs\<close> on \<open>partId\<close> pass, in call order, and \<open>parts_with partId agg\<close> the parts
  of the ledger that carry the id.
\<close>

datatype agg_call =
    AddAction string Action "part_type option"
  | AddResourcePart string part_type string
  | AddRequest Request

fun call :: "ResultAggregator \<Rightarrow> agg_call \<Rightarrow> ResultAggregator" where
  "call agg (AddAction partId action partType) = addAction partId action partType agg"
| "call agg (AddResourcePart partId partType url) = addResourcePart partId partType url agg"
| "call agg (AddRequest request) = addRequest request agg"

definition calls :: "ResultAggregator \<Rightarrow> agg_call list \<Rightarrow> ResultAggregator" where
  "calls agg cs = foldl call agg cs"

fun actions_for :: "string \<Rightarrow> agg_call list \<Rightarrow> Action list" where
  "actions_for partId [] = []"
| "actions_for partId (AddAction partId' action partType # cs) =
     (if partId' = partId then action # actions_for partId cs else actions_for partId cs)"
| "actions_for partId (c # cs) = actions_for partId cs"

definition parts_with :: "string \<Rightarrow> ResultAggregator \<Rightarrow> Part list" where
  "parts_with partId agg = filter (\<lambda>p. p_id p = partId) (parts (scanData agg))"

text \<open>Sample actions for the concrete runs below.\<close>

definition act1 :: Action where
  "act1 = \<lparr>a_actionId = ''action_1_a'', a_type = ''input.value'', a_data = ''id=u''\<rparr>"

definition act2 :: Action where
  "act2 = \<lparr>a_actionId = ''action_2_b'', a_type = ''input.value'', a_data = ''id=v''\<rparr>"

definition act3 :: Action where
  "act3 = \<lparr>a_actionId = ''action_3_c'', a_type = ''input.value'', a_data = ''id=w''\<rparr>"

section \<open>Vocabulary of the statements\<close>

text \<open>
  A cause is a sensitive value read or a wrapped handler firing; \<open>cause_id\<close> is the id
  its hook generates. \<open>ledger\<close> is the aggregator's array of request records.
\<close>

fun is_cause :: "event \<Rightarrow> bool" where
  "is_cause (ValueRead el now rnd) = True"
| "is_cause (HandlerFired actionType elementId now rnd) = True"
| "is_cause e = False"

fun cause_id :: "event \<Rightarrow> string" where
  "cause_id (ValueRead el now rnd) = action_id now rnd"
| "cause_id (HandlerFired actionType elementId now rnd) = action_id now rnd"
| "cause_id e = []"

definition ledger :: "scanner \<Rightarrow> Request list" where
  "ledger s = requests (scanData (aggregator s))"

text \<open>
  The prefixes that tell a cause's id from the id of a request without a cause: \<open>http_\<close>
  from the request observer, \<open>failed_\<close> from the fallback of the failure observer.
\<close>

definition is_action_id :: "string \<Rightarrow> bool" where
  "is_action_id i = (take 7 i = ''action_'')"

definition is_synthetic_id :: "string \<Rightarrow> bool" where
  "is_synthetic_id i = (take 5 i = ''http_'' \<or> take 7 i = ''failed_'')"


text \<open>The events through which the transport speaks of the request with a given id.\<close>

fun about_request :: "string \<Rightarrow> event \<Rightarrow> bool" where
  "about_request rid (RequestSeen requestId url resourceType meth now rnd) = (requestId = rid)"
| "about_request rid (ResponseSeen requestId url status) = (requestId = rid)"
| "about_request rid (RequestFailed requestId url resourceType meth now rnd) = (requestId = rid)"
| "about_request rid e = False"

text \<open>A sample element for the concrete runs below.\<close>

definition el0 :: element where
  "el0 = \<lparr>el_id = ''username'', el_name = [], el_tag = ''input'', el_index = 0\<rparr>"

text \<open>
  \<open>top_is a w\<close>: the cause \<open>a\<close> is the top of the page's stack and its current context.
\<close>

definition top_is :: "string \<Rightarrow> window \<Rightarrow> bool" where
  "top_is a w = (actionIdStack w \<noteq> [] \<and> last (actionIdStack w) = a \<and> currentActionId w = Some a)"

text \<open>
  A store of a thousand entries, for the concrete run of an eviction.
\<close>

definition full_store :: "(string \<times> string) list" where
  "full_store =
     map (\<lambda>n. (''https://t.example/'' @ replicate n (CHR ''a''), ''action_1_aaa'')) [0..<1000]"



text \<open>
  \<open>pending_inv s\<close>: the pending map has no key twice (it is a \<open>Map\<close>), no two
  entries refer to the same record, and every reference is to a record of the ledger.
\<close>

definition pending_inv :: "scanner \<Rightarrow> bool" where
  "pending_inv s =
     (distinct (map fst (pendingRequests s)) \<and>
      distinct (map snd (pendingRequests s)) \<and>
      (\<forall>i\<in>snd ` set (pendingRequests s). i < length (ledger s)))"


text \<open>
  \<open>burst n\<close>: the page fetches \<open>n\<close> different urls, one after the other (the \<open>k\<close>-th
  url ends in \<open>k\<close> letters \<open>a\<close>).
\<close>

definition burst_url :: "nat \<Rightarrow> string" where
  "burst_url k = ''https://cdn.x/'' @ replicate k (CHR ''a'')"

definition burst :: "nat \<Rightarrow> event list" where
  "burst n = map (\<lambda>k. Fetch (InputString (burst_url k))) [0..<n]"

section \<open>Properties of the aggregator\<close>

subsection \<open>Lists of parts\<close>

lemma find_append_part:
  "find P (ps @ [q]) = (case find P ps of Some x \<Rightarrow> Some x | None \<Rightarrow> if P q then Some q else None)"
  by (induction ps) auto

lemma filter_single_find: "filter P ps = [q] \<Longrightarrow> find P ps = Some q"
  by (induction ps) (auto split: if_splits)

lemma find_None_filter: "find P ps = None \<longleftrightarrow> filter P ps = []"
  by (induction ps) auto

lemma filter_push_action_same:
  "filter (\<lambda>p. p_id p = pid) ps = [q] \<Longrightarrow>
   filter (\<lambda>p. p_id p = pid) (push_action pid b ps) = [q\<lparr>p_actions := p_actions q @ [b]\<rparr>]"
  by (induction ps) (auto split: if_splits)

lemma filter_push_action_other:
  "pid' \<noteq> pid \<Longrightarrow>
   filter (\<lambda>p. p_id p = pid) (push_action pid' b ps) = filter (\<lambda>p. p_id p = pid) ps"
  by (induction ps) auto

subsection \<open>Registration of a resource part\<close>

text \<open>
  C8. Registering a resource part a second time under the same id, with whatever type
  and url, leaves the whole ledger as the first registration left it: the parts, their
  types and action lists, the requests and the set of action ids.
\<close>

theorem addResourcePart_idempotent:
  "addResourcePart partId partType' url' (addResourcePart partId partType url agg) =
   addResourcePart partId partType url agg"
  by (auto simp: addResourcePart_def find_append_part split: option.splits)

subsection \<open>Actions of a part\<close>

lemma parts_with_call:
  assumes "parts_with pid agg = [q]"
  shows "parts_with pid (call agg c) = [q\<lparr>p_actions := p_actions q @ actions_for pid [c]\<rparr>]"
proof (cases c)
  case (AddAction pid' b t)
  show ?thesis
  proof (cases "pid' = pid")
    case True
    have "find (\<lambda>p. p_id p = pid) (parts (scanData agg)) = Some q"
      using assms by (simp add: parts_with_def filter_single_find)
    thus ?thesis using assms True AddAction
      by (simp add: parts_with_def addAction_def filter_push_action_same Let_def)
  next
    case False
    thus ?thesis using assms AddAction
      by (auto simp: parts_with_def addAction_def filter_push_action_other Let_def
               split: option.splits)
  qed
next
  case (AddResourcePart pid' t u)
  show ?thesis
  proof (cases "pid' = pid")
    case True
    have "find (\<lambda>p. p_id p = pid) (parts (scanData agg)) = Some q"
      using assms by (simp add: parts_with_def filter_single_find)
    thus ?thesis using assms True AddResourcePart
      by (simp add: parts_with_def addResourcePart_def)
  next
    case False
    thus ?thesis using assms AddResourcePart
      by (auto simp: parts_with_def addResourcePart_def split: option.splits)
  qed
next
  case (AddRequest r)
  thus ?thesis using assms by (simp add: parts_with_def addRequest_def)
qed

lemma actions_for_Cons: "actions_for pid (c # cs) = actions_for pid [c] @ actions_for pid cs"
  by (cases c) auto

lemma parts_with_calls:
  "parts_with pid agg = [q] \<Longrightarrow>
   parts_with pid (calls agg cs) = [q\<lparr>p_actions := p_actions q @ actions_for pid cs\<rparr>]"
proof (induction cs arbitrary: agg q)
  case Nil
  then show ?case by (simp add: calls_def)
next
  case (Cons c cs)
  have "parts_with pid (call agg c) = [q\<lparr>p_actions := p_actions q @ actions_for pid [c]\<rparr>]"
    using Cons.prems by (rule parts_with_call)
  from Cons.IH[OF this] show ?case
    by (simp add: calls_def actions_for_Cons[of pid c cs])
qed

text \<open>
  C10. When the ledger has no part with the id, \<open>addAction\<close> appends a new part with the
  id that holds just the action; its type is the one the caller passes (the monitor
  passes \<open>html\<close>) and \<open>html\<close> when the caller leaves the type out. The parts that were
  there stay as they are, and the action's id joins the set of action ids. After any
  further aggregator calls the ledger still has exactly one part with the id, of the same
  type, and its actions are the first one followed by the actions of the later
  \<open>addAction\<close> calls on the id, in call order, whatever type those calls pass.
  \<open>addAction\<close> has no failing branch.
\<close>

theorem addAction_creates_part_then_appends:
  assumes "find (\<lambda>p. p_id p = partId) (parts (scanData agg)) = None"
  shows "parts (scanData (addAction partId a None agg)) =
           parts (scanData agg) @ [\<lparr>p_id = partId, p_type = Html, p_actions = [a]\<rparr>] \<and>
         parts (scanData (addAction partId a (Some t) agg)) =
           parts (scanData agg) @ [\<lparr>p_id = partId, p_type = t, p_actions = [a]\<rparr>] \<and>
         a_actionId a \<in> set (actionIdSet (addAction partId a partType agg)) \<and>
         parts_with partId (calls (addAction partId a partType agg) cs) =
           [\<lparr>p_id = partId, p_type = (case partType of None \<Rightarrow> Html | Some t' \<Rightarrow> t'),
             p_actions = a # actions_for partId cs\<rparr>]"
proof -
  let ?ty = "case partType of None \<Rightarrow> Html | Some t' \<Rightarrow> t'"
  have first: "parts (scanData (addAction partId a pt agg)) =
           parts (scanData agg) @
             [\<lparr>p_id = partId, p_type = (case pt of None \<Rightarrow> Html | Some t' \<Rightarrow> t'),
               p_actions = [a]\<rparr>]" for pt
    using assms by (simp add: addAction_def Let_def)
  have ids: "a_actionId a \<in> set (actionIdSet (addAction partId a partType agg))"
    by (simp add: addAction_def Let_def set_add_def)
  have "filter (\<lambda>p. p_id p = partId) (parts (scanData agg)) = []"
    using assms by (simp add: find_None_filter)
  hence "parts_with partId (addAction partId a partType agg) =
           [\<lparr>p_id = partId, p_type = ?ty, p_actions = [a]\<rparr>]"
    using first[of partType] by (simp add: parts_with_def)
  from parts_with_calls[OF this, of cs] first[of None] first[of "Some t"] ids
  show ?thesis by simp
qed

theorem addAction_creates_part_then_appends_witness:
  "find (\<lambda>p. p_id p = ''part_html_main'') (parts (scanData new_aggregator)) = None \<and>
   parts (scanData (addAction ''part_html_main'' act1 (Some Html) new_aggregator)) =
     [\<lparr>p_id = ''part_html_main'', p_type = Html, p_actions = [act1]\<rparr>] \<and>
   parts_with ''part_html_main''
     (calls (addAction ''part_html_main'' act1 (Some Html) new_aggregator)
        [AddAction ''part_js_1'' act3 (Some Js), AddAction ''part_html_main'' act2 (Some Other),
         AddResourcePart ''part_html_main'' Css ''u'', AddAction ''part_html_main'' act3 None]) =
     [\<lparr>p_id = ''part_html_main'', p_type = Html, p_actions = [act1, act2, act3]\<rparr>]"
proof -
  have h: "find (\<lambda>p. p_id p = ''part_html_main'') (parts (scanData new_aggregator)) = None"
    by (simp add: new_aggregator_def)
  have e: "parts (scanData new_aggregator) = []"
    by (simp add: new_aggregator_def)
  show ?thesis
    using h e addAction_creates_part_then_appends[OF h, of act1 Html "Some Html"
       "[AddAction ''part_js_1'' act3 (Some Js), AddAction ''part_html_main'' act2 (Some Other),
         AddResourcePart ''part_html_main'' Css ''u'', AddAction ''part_html_main'' act3 None]"]
    by simp
qed

subsection \<open>The linkage rate\<close>

lemma linkageRate_bounds:
  assumes "requests (scanData agg) \<noteq> []"
  shows "\<exists>q. linkageRate (getLinkageStats agg) = Finite q \<and> 0 \<le> q \<and> q \<le> 100"
proof -
  define n where "n = length (requests (scanData agg))"
  define k where
    "k = length (filter (\<lambda>req. r_actionId req \<in> set (actionIdSet agg)) (requests (scanData agg)))"
  define x :: rat where "x = of_nat k / of_nat n"
  have n: "0 < n" using assms by (simp add: n_def)
  have k: "k \<le> n" by (simp add: k_def n_def)
  have x1: "x \<le> 1" using n k by (simp add: x_def divide_le_eq_1)
  have x0: "0 \<le> x" by (simp add: x_def)
  have "x * 100 \<le> 1 * 100" using x1 by (rule mult_right_mono) simp
  hence hi: "x * 100 \<le> 100" by simp
  have lo: "0 \<le> x * 100" using x0 by simp
  have "linkageRate (getLinkageStats agg) = Finite (x * 100)"
    using n
    by (simp add: getLinkageStats_def validateLinkage_def js_div_def Let_def x_def k_def n_def)
  thus ?thesis using hi lo by blast
qed

text \<open>
  C2. On a ledger without requests \<open>getLinkageStats\<close> divides zero by zero: the
  \<open>linkageRate\<close> it returns is \<open>NaN\<close>, which is neither \<open>0\<close> nor at least \<open>0\<close>. (With
  at least one request the rate is a finite number between \<open>0\<close> and \<open>100\<close>, lemma
  \<open>linkageRate_bounds\<close>.)
\<close>

theorem getLinkageStats_empty_ledger_NaN:
  "linkageRate (getLinkageStats new_aggregator) = NaN \<and>
   linkageRate (getLinkageStats new_aggregator) \<noteq> Finite 0 \<and>
   \<not> js_le (Finite 0) (linkageRate (getLinkageStats new_aggregator))"
  by (simp add: getLinkageStats_def validateLinkage_def new_aggregator_def js_div_def)

section \<open>Runs and frames\<close>

lemmas handler_defs =
  value_getter_def wrapped_handler_def fetch_wrapper_def xhr_send_def report_mapping_def
  createResourcePart_def on_request_def on_response_def on_requestfailed_def cleanup_def

lemmas aggregator_defs =
  addAction_def addResourcePart_def addRequest_def set_status_def reportInputAccess_def

lemma show_nat_small: "n < 10 \<Longrightarrow> show_nat n = [digit_char n]"
  by (subst show_nat.simps) simp

lemma show_nat_big: "\<not> n < 10 \<Longrightarrow> show_nat n = show_nat (n div 10) @ [digit_char (n mod 10)]"
  by (subst show_nat.simps) simp

lemmas eval_simps =
  handler_defs aggregator_defs Let_def show_nat_small show_nat_big digit_char_def
  action_id_def http_id_def failed_id_def gen_id_def push_context_def context_cleanup_def
  xhr_open_def new_scanner_def new_aggregator_def set_add_def element_label_def el0_def
  reportRequestMapping_def resourceTypeMap_def ledger_def

lemma run_Nil [simp]: "run s [] = s"
  by (simp add: run_def)

lemma run_Cons [simp]: "run s (e # es) = run (step s e) es"
  by (simp add: run_def)

lemma run_append [simp]: "run s (es @ es') = run (run s es) es'"
  by (simp add: run_def)

subsection \<open>The page\<close>

lemma page_value_getter [simp]:
  "page (value_getter el now rnd s) = push_context (action_id now rnd) (page s)"
  by (simp add: value_getter_def Let_def)

lemma page_wrapped_handler [simp]:
  "page (wrapped_handler ty eid now rnd s) = push_context (action_id now rnd) (page s)"
  by (simp add: wrapped_handler_def Let_def)

lemma page_fetch_wrapper [simp]: "page (fetch_wrapper input s) = page s"
  by (simp add: fetch_wrapper_def report_mapping_def Let_def split: option.splits)

lemma page_xhr_send [simp]: "page (xhr_send x s) = page s"
  by (simp add: xhr_send_def report_mapping_def Let_def split: option.splits)

lemma page_on_request [simp]: "page (on_request rid url rt m now rnd s) = page s"
  by (simp add: on_request_def createResourcePart_def Let_def)

lemma page_on_response [simp]: "page (on_response rid url st s) = page s"
  by (simp add: on_response_def split: option.splits)

lemma page_on_requestfailed [simp]: "page (on_requestfailed rid url rt m now rnd s) = page s"
  by (simp add: on_requestfailed_def Let_def split: option.splits)

lemma page_cleanup [simp]: "page (cleanup now s) = page s"
  by (simp add: cleanup_def Let_def)

lemma top_is_push: "top_is a (push_context a w)"
  by (simp add: top_is_def push_context_def)

lemma cleanup_other: "top_is b w \<Longrightarrow> a \<noteq> b \<Longrightarrow> context_cleanup a w = w"
  by (simp add: top_is_def context_cleanup_def)

lemma top_is_step:
  assumes "top_is b (page s)" "\<not> is_cause e" "e \<noteq> CleanupTimer b"
  shows "top_is b (page (step s e))"
proof (cases e)
  case (CleanupTimer a)
  with assms have "a \<noteq> b" by simp
  with assms(1) CleanupTimer show ?thesis by (simp add: cleanup_other)
next
  case (XhrOpen x url)
  with assms(1) show ?thesis by (simp add: xhr_open_def top_is_def)
qed (use assms in simp_all)

lemma top_is_run:
  "top_is b (page s) \<Longrightarrow> \<forall>e\<in>set es. \<not> is_cause e \<and> e \<noteq> CleanupTimer b \<Longrightarrow>
   top_is b (page (run s es))"
  by (induction es arbitrary: s) (simp_all add: top_is_step del: step.simps)

lemma top_is_cause: "is_cause e \<Longrightarrow> top_is (cause_id e) (page (step s e))"
  by (cases e) (simp_all add: top_is_push)

lemma cleanup_step_other:
  "top_is b (page s) \<Longrightarrow> a \<noteq> b \<Longrightarrow> step s (CleanupTimer a) = s"
  by (simp add: cleanup_other)

lemma cleanup_step_changes:
  assumes "step s (CleanupTimer a) \<noteq> s"
  shows "actionIdStack (page s) \<noteq> [] \<and> last (actionIdStack (page s)) = a \<and>
         actionIdStack (page (step s (CleanupTimer a))) = butlast (actionIdStack (page s))"
proof -
  have "context_cleanup a (page s) \<noteq> page s"
    using assms by auto
  thus ?thesis
    by (auto simp: context_cleanup_def Let_def split: if_splits)
qed

text \<open>
  C7. Let a cause \<open>A\<close> be pushed, then (after any events) a cause \<open>B\<close> with another id,
  and let no further cause fire and the timer of \<open>B\<close> not fire. Then the timer of \<open>A\<close>
  leaves the whole state as it is, and \<open>B\<close> is still the top of the stack and the
  current context. In any state a cleanup timer that changes anything found the id it
  was scheduled for on top of the stack and removed just that entry.
\<close>

theorem cleanup_is_identity_guarded:
  assumes "is_cause eA" and "is_cause eB" and "cause_id eA \<noteq> cause_id eB"
    and "\<forall>e\<in>set es2. \<not> is_cause e \<and> e \<noteq> CleanupTimer (cause_id eB)"
  shows "(let s = run (step (run (step s0 eA) es1) eB) es2
          in step s (CleanupTimer (cause_id eA)) = s \<and>
             currentActionId (page s) = Some (cause_id eB) \<and>
             last (actionIdStack (page s)) = cause_id eB) \<and>
         (\<forall>s a. step s (CleanupTimer a) \<noteq> s \<longrightarrow>
            actionIdStack (page s) \<noteq> [] \<and> last (actionIdStack (page s)) = a \<and>
            actionIdStack (page (step s (CleanupTimer a))) = butlast (actionIdStack (page s)))"
proof -
  define s where "s = run (step (run (step s0 eA) es1) eB) es2"
  have top: "top_is (cause_id eB) (page s)"
    unfolding s_def using assms(2,4) by (intro top_is_run top_is_cause)
  have 1: "step s (CleanupTimer (cause_id eA)) = s"
    using top assms(3) by (rule cleanup_step_other)
  have 2: "currentActionId (page s) = Some (cause_id eB)"
    and 3: "last (actionIdStack (page s)) = cause_id eB"
    using top by (simp_all add: top_is_def)
  show ?thesis
    unfolding Let_def s_def[symmetric] using 1 2 3 cleanup_step_changes by blast
qed

theorem cleanup_is_identity_guarded_witness:
  "(let s = run (step (run (step new_scanner (ValueRead el0 1 ''aaa''))
                        [Fetch (InputString ''https://api.x/a'')])
                   (HandlerFired ''input.addEventListener.change'' ''id=username'' 2 ''bbb''))
                [Fetch (InputString ''https://api.x/b''), CleanupTimer ''action_9_zzz'']
    in step s (CleanupTimer ''action_1_aaa'') = s \<and>
       currentActionId (page s) = Some ''action_2_bbb'' \<and>
       actionIdStack (page s) = [''action_1_aaa'', ''action_2_bbb''])"
proof -
  let ?eA = "ValueRead el0 1 ''aaa''"
  let ?eB = "HandlerFired ''input.addEventListener.change'' ''id=username'' 2 ''bbb''"
  let ?es2 = "[Fetch (InputString ''https://api.x/b''), CleanupTimer ''action_9_zzz'']"
  have a: "is_cause ?eA" and b: "is_cause ?eB" by simp_all
  have c: "cause_id ?eA \<noteq> cause_id ?eB" by (simp add: eval_simps)
  have d: "\<forall>e\<in>set ?es2. \<not> is_cause e \<and> e \<noteq> CleanupTimer (cause_id ?eB)"
    by (simp add: eval_simps)
  have e: "cause_id ?eA = ''action_1_aaa''" by (simp add: eval_simps)
  have st: "actionIdStack (page (run (step (run (step new_scanner ?eA)
                        [Fetch (InputString ''https://api.x/a'')]) ?eB) ?es2)) =
        [''action_1_aaa'', ''action_2_bbb'']"
    by (simp add: eval_simps)
  note main = cleanup_is_identity_guarded[OF a b c d, of new_scanner
      "[Fetch (InputString ''https://api.x/a'')]", THEN conjunct1, unfolded e Let_def]
  have cur: "cause_id ?eB = ''action_2_bbb''" by (simp add: eval_simps)
  show ?thesis
    unfolding Let_def using main st cur by (simp del: run_Cons run_Nil step.simps)
qed


subsection \<open>Identifiers\<close>

lemma action_id_is_action [simp]: "is_action_id (action_id now rnd)"
  by (simp add: is_action_id_def action_id_def gen_id_def)

lemma http_id_is_synthetic [simp]: "is_synthetic_id (http_id now rnd)"
  by (simp add: is_synthetic_id_def http_id_def gen_id_def)

lemma failed_id_is_synthetic [simp]: "is_synthetic_id (failed_id now rnd)"
  by (simp add: is_synthetic_id_def failed_id_def gen_id_def)

lemma action_not_synthetic: "is_action_id i \<Longrightarrow> \<not> is_synthetic_id i"
  by (cases i) (auto simp: is_action_id_def is_synthetic_id_def)

lemma failed_id_not_action [simp]: "\<not> is_action_id (failed_id now rnd)"
  by (simp add: is_action_id_def failed_id_def gen_id_def)

lemma action_id_nonempty [simp]: "action_id now rnd \<noteq> []"
  by (simp add: action_id_def gen_id_def)

subsection \<open>The set of action ids\<close>

lemma actionIdSet_reportInputAccess:
  "set (actionIdSet (reportInputAccess ty dat (Some (action_id now rnd)) now' rnd' agg)) =
   insert (action_id now rnd) (set (actionIdSet agg))"
  by (auto simp: reportInputAccess_def addAction_def Let_def set_add_def)

lemma actionIdSet_step:
  "set (actionIdSet (aggregator (step s e))) =
     (if is_cause e then insert (cause_id e) (set (actionIdSet (aggregator s)))
      else set (actionIdSet (aggregator s)))"
  by (cases e)
     (auto simp: handler_defs actionIdSet_reportInputAccess Let_def addResourcePart_def
                 addRequest_def set_status_def split: option.splits)

lemma cause_id_is_action: "is_cause e \<Longrightarrow> is_action_id (cause_id e)"
  by (cases e) simp_all

lemma actionIdSet_run_action:
  "\<forall>i\<in>set (actionIdSet (aggregator s)). is_action_id i \<Longrightarrow>
   \<forall>i\<in>set (actionIdSet (aggregator (run s es))). is_action_id i"
proof (induction es arbitrary: s)
  case Nil
  then show ?case by simp
next
  case (Cons e es)
  have "\<forall>i\<in>set (actionIdSet (aggregator (step s e))). is_action_id i"
    using Cons.prems by (auto simp: actionIdSet_step cause_id_is_action simp del: step.simps)
  from Cons.IH[OF this] show ?case by simp
qed

lemma actionIdSet_reachable:
  "i \<in> set (actionIdSet (aggregator (run new_scanner es))) \<Longrightarrow> is_action_id i"
  using actionIdSet_run_action[of new_scanner es]
  by (simp add: new_scanner_def new_aggregator_def)

lemma actionIdSet_run_mono:
  "a \<in> set (actionIdSet (aggregator s)) \<Longrightarrow> a \<in> set (actionIdSet (aggregator (run s es)))"
  by (induction es arbitrary: s) (simp_all add: actionIdSet_step del: step.simps)

lemma linked_le_not_synthetic:
  assumes "\<forall>i\<in>set ids. is_action_id i"
  shows "length (filter (\<lambda>req. r_actionId req \<in> set ids) rs) \<le>
         length (filter (\<lambda>req. \<not> is_synthetic_id (r_actionId req)) rs)"
proof -
  have "filter (\<lambda>req. r_actionId req \<in> set ids) rs =
        filter (\<lambda>req. r_actionId req \<in> set ids)
           (filter (\<lambda>req. \<not> is_synthetic_id (r_actionId req)) rs)"
    using assms by (auto simp: action_not_synthetic intro: filter_cong)
  thus ?thesis
    by (metis length_filter_le)
qed

lemma ledger_on_request:
  "ledger (on_request rid url rt m now rnd s) =
     ledger s @ [\<lparr>r_actionId = (case map_of (urlActionMappings s) url of
                                    Some a \<Rightarrow> a | None \<Rightarrow> http_id now rnd),
                   r_url = url, r_requestSource = rt, r_method = m, r_status = - 1\<rparr>]"
  by (simp add: ledger_def on_request_def createResourcePart_def addRequest_def
                addResourcePart_def Let_def split: option.splits)

text \<open>
  C9. An id with the prefix \<open>http_\<close> or \<open>failed_\<close> is never the id of a cause,
  whatever the clock and the random suffix are, and these are the ids the request
  observer and the fallback of the failure observer give a record when the store has no
  entry for the url. In every state a scan reaches, a request that bears an id with such
  a prefix is not in the set of action ids, is among the unlinked requests, and the
  linked count is at most the number of requests without such a prefix.
\<close>

theorem synthetic_ids_are_unlinked:
  "(is_synthetic_id (http_id now rnd) \<and> is_synthetic_id (failed_id now rnd) \<and>
    \<not> is_synthetic_id (action_id now' rnd') \<and>
    http_id now rnd \<noteq> action_id now' rnd' \<and> failed_id now rnd \<noteq> action_id now' rnd') \<and>
   (map_of (urlActionMappings s) url = None \<longrightarrow>
      r_actionId (last (ledger (step s (RequestSeen rid url rt m now rnd)))) = http_id now rnd) \<and>
   (map_of (urlActionMappings s) url = None \<and> map_of (pendingRequests s) rid = None \<longrightarrow>
      r_actionId (last (ledger (step s (RequestFailed rid url rt m now rnd)))) =
        failed_id now rnd) \<and>
   (\<forall>r\<in>set (ledger (run new_scanner es)).
      is_synthetic_id (r_actionId r) \<longrightarrow>
        r_actionId r \<notin> set (actionIdSet (aggregator (run new_scanner es))) \<and>
        r \<in> set (getUnlinkedRequests (aggregator (run new_scanner es)))) \<and>
   linkedRequests (validateLinkage (aggregator (run new_scanner es))) \<le>
     length (filter (\<lambda>r. \<not> is_synthetic_id (r_actionId r)) (ledger (run new_scanner es)))"
proof -
  have ids: "is_synthetic_id (http_id now rnd) \<and> is_synthetic_id (failed_id now rnd) \<and>
    \<not> is_synthetic_id (action_id now' rnd') \<and>
    http_id now rnd \<noteq> action_id now' rnd' \<and> failed_id now rnd \<noteq> action_id now' rnd'"
    using action_not_synthetic[of "action_id now' rnd'"] http_id_is_synthetic[of now rnd]
      failed_id_is_synthetic[of now rnd]
    by (metis action_id_is_action)
  have new: "map_of (urlActionMappings s) url = None \<longrightarrow>
      r_actionId (last (ledger (step s (RequestSeen rid url rt m now rnd)))) = http_id now rnd"
    by (simp add: ledger_on_request)
  have new': "map_of (urlActionMappings s) url = None \<and> map_of (pendingRequests s) rid = None \<longrightarrow>
      r_actionId (last (ledger (step s (RequestFailed rid url rt m now rnd)))) =
        failed_id now rnd"
    by (simp add: ledger_def on_requestfailed_def addRequest_def Let_def)
  have inv: "\<forall>i\<in>set (actionIdSet (aggregator (run new_scanner es))). is_action_id i"
    using actionIdSet_reachable by blast
  have unl: "\<forall>r\<in>set (ledger (run new_scanner es)).
      is_synthetic_id (r_actionId r) \<longrightarrow>
        r_actionId r \<notin> set (actionIdSet (aggregator (run new_scanner es))) \<and>
        r \<in> set (getUnlinkedRequests (aggregator (run new_scanner es)))"
    using inv action_not_synthetic by (auto simp: getUnlinkedRequests_def ledger_def)
  have cnt: "linkedRequests (validateLinkage (aggregator (run new_scanner es))) \<le>
     length (filter (\<lambda>r. \<not> is_synthetic_id (r_actionId r)) (ledger (run new_scanner es)))"
    using linked_le_not_synthetic[OF inv] by (simp add: validateLinkage_def ledger_def Let_def)
  from ids new new' unl cnt show ?thesis by blast
qed

theorem synthetic_ids_are_unlinked_witness:
  "(let s = run new_scanner
              [ValueRead el0 1 ''aaa'', Fetch (InputString ''https://api.x/data''),
               RequestSeen ''R1'' ''https://api.x/data'' ''fetch'' ''GET'' 2 ''bbb'',
               RequestSeen ''R2'' ''https://cdn.x/app.css'' ''stylesheet'' ''GET'' 3 ''ccc''];
        r = \<lparr>r_actionId = ''http_3_ccc'', r_url = ''https://cdn.x/app.css'',
             r_requestSource = ''stylesheet'', r_method = ''GET'', r_status = - 1\<rparr>
    in map_of (urlActionMappings new_scanner) ''https://cdn.x/app.css'' = None \<and>
       map_of (pendingRequests new_scanner) ''R2'' = None \<and>
       r \<in> set (ledger s) \<and> is_synthetic_id (r_actionId r) \<and>
       r_actionId r \<notin> set (actionIdSet (aggregator s)) \<and>
       r \<in> set (getUnlinkedRequests (aggregator s)) \<and>
       linkedRequests (validateLinkage (aggregator s)) = 1)"
proof -
  let ?es = "[ValueRead el0 1 ''aaa'', Fetch (InputString ''https://api.x/data''),
               RequestSeen ''R1'' ''https://api.x/data'' ''fetch'' ''GET'' 2 ''bbb'',
               RequestSeen ''R2'' ''https://cdn.x/app.css'' ''stylesheet'' ''GET'' 3 ''ccc'']"
  let ?r = "\<lparr>r_actionId = ''http_3_ccc'', r_url = ''https://cdn.x/app.css'',
             r_requestSource = ''stylesheet'', r_method = ''GET'', r_status = - 1\<rparr>"
  have led: "ledger (run new_scanner ?es) =
     [\<lparr>r_actionId = ''action_1_aaa'', r_url = ''https://api.x/data'',
        r_requestSource = ''fetch'', r_method = ''GET'', r_status = - 1\<rparr>, ?r]"
    by (simp add: eval_simps)
  have ids: "actionIdSet (aggregator (run new_scanner ?es)) = [''action_1_aaa'']"
    by (simp add: eval_simps)
  have syn: "is_synthetic_id (r_actionId ?r)"
    by (simp add: is_synthetic_id_def)
  have mem: "?r \<in> set (ledger (run new_scanner ?es))"
    unfolding led by simp
  have emp: "map_of (urlActionMappings new_scanner) ''https://cdn.x/app.css'' = None"
    "map_of (pendingRequests new_scanner) ''R2'' = None"
    by (simp_all add: new_scanner_def)
  note main = synthetic_ids_are_unlinked[of 3 "''ccc''" 1 "''aaa''" new_scanner
      "''https://cdn.x/app.css''" "''R2''" "''stylesheet''" "''GET''" ?es]
  from main have "\<forall>r\<in>set (ledger (run new_scanner ?es)).
      is_synthetic_id (r_actionId r) \<longrightarrow>
        r_actionId r \<notin> set (actionIdSet (aggregator (run new_scanner ?es))) \<and>
        r \<in> set (getUnlinkedRequests (aggregator (run new_scanner ?es)))"
    by blast
  with mem syn have unl:
     "r_actionId ?r \<notin> set (actionIdSet (aggregator (run new_scanner ?es))) \<and>
      ?r \<in> set (getUnlinkedRequests (aggregator (run new_scanner ?es)))"
    by blast
  have cnt: "linkedRequests (validateLinkage (aggregator (run new_scanner ?es))) = 1"
    using led ids by (simp add: validateLinkage_def ledger_def Let_def)
  show ?thesis
    unfolding Let_def using emp mem syn unl cnt by blast
qed

subsection \<open>The mapping store\<close>

lemma update_new_key:
  "k \<notin> fst ` set m \<Longrightarrow> AList.update k v m = m @ [(k, v)]"
  by (induction m) auto

lemma length_update_old:
  "k \<in> fst ` set m \<Longrightarrow> length (AList.update k v m) = length m"
  by (induction m) auto

lemma map_rebuild_aux:
  "distinct (map fst (acc @ xs)) \<Longrightarrow>
   foldl (\<lambda>m (u, a). AList.update u a m) acc xs = acc @ xs"
proof (induction xs arbitrary: acc)
  case Nil
  then show ?case by simp
next
  case (Cons x xs)
  obtain u a where x: "x = (u, a)" by (cases x)
  have new: "u \<notin> fst ` set acc" using Cons.prems x by auto
  have "distinct (map fst ((acc @ [x]) @ xs))" using Cons.prems by simp
  from Cons.IH[OF this] show ?case
    using x new by (simp add: update_new_key)
qed

lemma map_rebuild_distinct: "distinct (map fst xs) \<Longrightarrow> map_rebuild xs = xs"
  using map_rebuild_aux[of "[]" xs] by (simp add: map_rebuild_def)

lemma distinct_slice_last: "distinct (map fst xs) \<Longrightarrow> distinct (map fst (slice_last n xs))"
  by (simp add: slice_last_def drop_map[symmetric])

lemma length_slice_last: "length (slice_last n xs) = min n (length xs)"
  by (auto simp: slice_last_def)


text \<open>
  C6. When a report makes the store larger than 1000 entries, what is left is the last
  500 entries of the store in insertion order, the new entry last: 500 entries, which is
  within the capacity of 1000. A report of a url that is already a key replaces the
  value where the entry stands and is no new insertion. The housekeeping sweep trims in
  the same way: a store of more than 50 entries is cut to its last 25.
\<close>

theorem eviction_keeps_most_recent:
  assumes "distinct (map fst m)" and "length (AList.update url a m) > 1000"
  shows "reportRequestMapping url a m = slice_last 500 (AList.update url a m) \<and>
         length (reportRequestMapping url a m) = 500 \<and>
         length (reportRequestMapping url a m) \<le> 1000 \<and>
         (length m \<le> 1000 \<longrightarrow>
            reportRequestMapping url a m = drop (length m - 499) m @ [(url, a)]) \<and>
         (distinct (map fst (urlActionMappings s)) \<and> length (urlActionMappings s) > 50 \<longrightarrow>
            urlActionMappings (cleanup now s) = slice_last 25 (urlActionMappings s) \<and>
            length (urlActionMappings (cleanup now s)) = 25)"
proof -
  let ?m' = "AList.update url a m"
  have d: "distinct (map fst (slice_last 500 ?m'))"
    using assms(1) by (simp add: distinct_slice_last distinct_update)
  have r: "reportRequestMapping url a m = slice_last 500 ?m'"
    using assms(2) d by (simp add: reportRequestMapping_def map_rebuild_distinct)
  have l: "length (reportRequestMapping url a m) = 500"
    using assms(2) unfolding r by (simp add: length_slice_last)
  have n: "reportRequestMapping url a m = drop (length m - 499) m @ [(url, a)]"
    if "length m \<le> 1000"
  proof -
    have "url \<notin> fst ` set m"
      using that assms(2) length_update_old[of url m a] by auto
    hence "?m' = m @ [(url, a)]" by (rule update_new_key)
    thus ?thesis using that assms(2) unfolding r slice_last_def by simp
  qed
  have k: "urlActionMappings (cleanup now s) = slice_last 25 (urlActionMappings s) \<and>
           length (urlActionMappings (cleanup now s)) = 25"
    if "distinct (map fst (urlActionMappings s)) \<and> length (urlActionMappings s) > 50"
    using that
    by (simp add: cleanup_def Let_def distinct_slice_last map_rebuild_distinct length_slice_last)
  have c: "length (reportRequestMapping url a m) \<le> 1000" using l by simp
  from r l c n k show ?thesis by blast
qed


lemma full_store_keys:
  "map fst full_store = map (\<lambda>n. ''https://t.example/'' @ replicate n (CHR ''a'')) [0..<1000]"
  by (simp add: full_store_def comp_def del: upt_Suc)

lemma full_store_distinct: "distinct (map fst full_store)"
proof -
  have "inj_on (\<lambda>n. ''https://t.example/'' @ replicate n (CHR ''a'')) (set [0..<1000])"
  proof (rule inj_onI)
    fix x y :: nat
    assume "''https://t.example/'' @ replicate x (CHR ''a'') =
            ''https://t.example/'' @ replicate y (CHR ''a'')"
    hence "replicate x (CHR ''a'') = replicate y (CHR ''a'')" by simp
    thus "x = y" by (metis length_replicate)
  qed
  thus ?thesis
    unfolding full_store_keys by (simp add: distinct_map del: upt_Suc)
qed

lemma full_store_length: "length full_store = 1000"
  by (simp add: full_store_def del: upt_Suc)

lemma full_store_new_key: "''https://api.x/new'' \<notin> fst ` set full_store"
proof -
  have "''https://api.x/new'' \<notin> set (map fst full_store)"
    unfolding full_store_keys by (auto simp del: upt_Suc)
  thus ?thesis by simp
qed

theorem eviction_keeps_most_recent_witness:
  "distinct (map fst full_store) \<and>
   length (AList.update ''https://api.x/new'' ''action_2_bbb'' full_store) > 1000 \<and>
   length full_store \<le> 1000 \<and>
   length (reportRequestMapping ''https://api.x/new'' ''action_2_bbb'' full_store) = 500 \<and>
   reportRequestMapping ''https://api.x/new'' ''action_2_bbb'' full_store =
     drop 501 full_store @ [(''https://api.x/new'', ''action_2_bbb'')] \<and>
   urlActionMappings (cleanup 60000 (new_scanner\<lparr>urlActionMappings := full_store\<rparr>)) =
     drop 975 full_store"
proof -
  let ?s = "new_scanner\<lparr>urlActionMappings := full_store\<rparr>"
  have len: "length (AList.update ''https://api.x/new'' ''action_2_bbb'' full_store) > 1000"
    using full_store_new_key by (simp add: update_new_key full_store_length)
  note main = eviction_keeps_most_recent[OF full_store_distinct len, of ?s 60000]
  from main have a: "length (reportRequestMapping ''https://api.x/new'' ''action_2_bbb'' full_store) = 500"
    by blast
  from main have "length full_store \<le> 1000 \<longrightarrow>
      reportRequestMapping ''https://api.x/new'' ''action_2_bbb'' full_store =
        drop (length full_store - 499) full_store @ [(''https://api.x/new'', ''action_2_bbb'')]"
    by blast
  hence b: "reportRequestMapping ''https://api.x/new'' ''action_2_bbb'' full_store =
     drop 501 full_store @ [(''https://api.x/new'', ''action_2_bbb'')]"
    by (simp add: full_store_length)
  have c: "length full_store \<le> 1000" by (simp add: full_store_length)
  have h: "distinct (map fst (urlActionMappings ?s)) \<and> length (urlActionMappings ?s) > 50"
    using full_store_distinct by (simp add: full_store_length)
  from main h have "urlActionMappings (cleanup 60000 ?s) = slice_last 25 (urlActionMappings ?s)"
    by blast
  hence e: "urlActionMappings (cleanup 60000 ?s) = drop 975 full_store"
    by (simp add: slice_last_def full_store_length)
  from full_store_distinct len c a b e show ?thesis by blast
qed

subsection \<open>Frames of the store and of the effects\<close>

lemma mappings_step:
  "urlActionMappings (step s e) =
     (case e of
        Fetch input \<Rightarrow>
          (case currentActionId (page s) of
             Some a \<Rightarrow> if a \<noteq> [] then reportRequestMapping (input_url input) a (urlActionMappings s)
                       else urlActionMappings s
           | None \<Rightarrow> urlActionMappings s)
      | XhrSend x \<Rightarrow>
          (case map_of (xhrs (page s)) x of
             None \<Rightarrow> urlActionMappings s
           | Some r \<Rightarrow>
               (case capturedActionId r of
                  Some a \<Rightarrow> if a \<noteq> [] then reportRequestMapping (requestUrl r) a (urlActionMappings s)
                            else urlActionMappings s
                | None \<Rightarrow> urlActionMappings s))
      | Housekeeping now \<Rightarrow>
          (if length (urlActionMappings s) > 50
           then map_rebuild (slice_last 25 (urlActionMappings s)) else urlActionMappings s)
      | _ \<Rightarrow> urlActionMappings s)"
  by (cases e) (simp_all add: handler_defs Let_def split: option.splits)






subsection \<open>Contexts of the page are causes\<close>



lemma set_update_subset: "set (AList.update k v m) \<subseteq> insert (k, v) (set m)"
  by (induction m) auto







subsection \<open>A burst of fetches\<close>

lemma burst_url_inj: "burst_url j = burst_url k \<Longrightarrow> j = k"
  by (simp add: burst_url_def)

lemma burst_Suc: "burst (Suc n) = burst n @ [Fetch (InputString (burst_url n))]"
  by (simp add: burst_def)

lemma report_no_eviction:
  "k \<notin> fst ` set m \<Longrightarrow> length m < 1000 \<Longrightarrow> reportRequestMapping k v m = m @ [(k, v)]"
  by (simp add: reportRequestMapping_def update_new_key)

lemma ledger_fetch [simp]: "ledger (fetch_wrapper input s) = ledger s"
  by (simp add: ledger_def fetch_wrapper_def report_mapping_def Let_def split: option.splits)

lemma pending_fetch [simp]: "pendingRequests (fetch_wrapper input s) = pendingRequests s"
  by (simp add: fetch_wrapper_def report_mapping_def Let_def split: option.splits)

lemma aggregator_fetch [simp]: "aggregator (fetch_wrapper input s) = aggregator s"
  by (simp add: fetch_wrapper_def report_mapping_def Let_def split: option.splits)

lemma burst_run:
  assumes "currentActionId (page s) = Some a" "a \<noteq> []"
    and "length (urlActionMappings s) + n \<le> 1000"
    and "\<forall>k<n. burst_url k \<notin> fst ` set (urlActionMappings s)"
  shows "urlActionMappings (run s (burst n)) =
           urlActionMappings s @ map (\<lambda>k. (burst_url k, a)) [0..<n] \<and>
         page (run s (burst n)) = page s \<and>
         aggregator (run s (burst n)) = aggregator s \<and>
         pendingRequests (run s (burst n)) = pendingRequests s"
  using assms(3,4)
proof (induction n)
  case 0
  then show ?case by (simp add: burst_def)
next
  case (Suc n)
  let ?t = "run s (burst n)"
  have ih: "urlActionMappings ?t = urlActionMappings s @ map (\<lambda>k. (burst_url k, a)) [0..<n]"
    "page ?t = page s" "aggregator ?t = aggregator s" "pendingRequests ?t = pendingRequests s"
    using Suc by simp_all
  have new: "burst_url n \<notin> fst ` set (urlActionMappings ?t)"
    using Suc.prems(2) unfolding ih(1) by (auto dest: burst_url_inj)
  have len: "length (urlActionMappings ?t) < 1000"
    using Suc.prems(1) unfolding ih(1) by simp
  have "urlActionMappings (step ?t (Fetch (InputString (burst_url n)))) =
        urlActionMappings ?t @ [(burst_url n, a)]"
    using assms(1,2) ih(2) new len
    by (simp add: mappings_step report_no_eviction del: step.simps)
  thus ?case
    using ih by (simp add: burst_Suc)
qed


lemma burst_url_not_api [simp]:
  "''https://api.x/data'' \<noteq> burst_url k" "burst_url k \<noteq> ''https://api.x/data''"
  by (simp_all add: burst_url_def)

lemma drop_map_upt: "drop j (map f [0..<n]) = map f [j..<n]"
  by (simp add: drop_map)

lemma map_of_burst_None:
  "map_of (map (\<lambda>k. (burst_url k, a)) [j..<n]) ''https://api.x/data'' = None"
  by (simp add: map_of_eq_None_iff image_iff)

subsection \<open>Reporting and dispatch\<close>















subsection \<open>The ledger of requests and the pending references\<close>

lemma first_index_Some:
  "first_index P xs = Some i \<Longrightarrow> i < length xs \<and> P (xs ! i)"
  by (induction xs arbitrary: i) (auto split: if_splits)

lemma ledger_set_status:
  "requests (scanData (set_status k v agg)) =
     (requests (scanData agg))[k := (requests (scanData agg) ! k)\<lparr>r_status := v\<rparr>]"
  by (simp add: set_status_def)

lemma ledger_reportInputAccess:
  "requests (scanData (reportInputAccess ty dat i now rnd agg)) = requests (scanData agg)"
  by (simp add: reportInputAccess_def addAction_def Let_def)

lemma ledger_createResourcePart [simp]: "ledger (createResourcePart url rt s) = ledger s"
  by (simp add: ledger_def createResourcePart_def addResourcePart_def Let_def split: option.splits)

lemma pending_createResourcePart [simp]:
  "pendingRequests (createResourcePart url rt s) = pendingRequests s"
  by (simp add: createResourcePart_def Let_def)

lemma ledger_on_response:
  "ledger (on_response rid url st s) =
     (case map_of (pendingRequests s) rid of
        Some k \<Rightarrow> (ledger s)[k := (ledger s ! k)\<lparr>r_status := int st\<rparr>]
      | None \<Rightarrow>
          (case first_index (\<lambda>r. r_url r = url \<and> r_status r = - 1) (ledger s) of
             Some k \<Rightarrow> (ledger s)[k := (ledger s ! k)\<lparr>r_status := int st\<rparr>]
           | None \<Rightarrow> ledger s))"
  by (simp add: ledger_def on_response_def ledger_set_status split: option.splits)

lemma ledger_on_requestfailed:
  "ledger (on_requestfailed rid url rt m now rnd s) =
     (case map_of (pendingRequests s) rid of
        Some k \<Rightarrow> (ledger s)[k := (ledger s ! k)\<lparr>r_status := - 999\<rparr>]
      | None \<Rightarrow>
          ledger s @ [\<lparr>r_actionId = (case map_of (urlActionMappings s) url of
                                         Some a \<Rightarrow> a | None \<Rightarrow> failed_id now rnd),
                        r_url = url, r_requestSource = rt, r_method = m, r_status = - 999\<rparr>])"
  by (simp add: ledger_def on_requestfailed_def ledger_set_status addRequest_def Let_def
           split: option.splits)

lemma ledger_other:
  assumes "\<not> (\<exists>rid. about_request rid e)"
  shows "ledger (step s e) = ledger s"
  using assms
  by (cases e)
     (simp_all add: ledger_def value_getter_def wrapped_handler_def fetch_wrapper_def
        xhr_send_def report_mapping_def cleanup_def ledger_reportInputAccess Let_def
        split: option.splits)

lemma pending_step:
  "snd ` set (pendingRequests (step s e)) \<subseteq> insert (length (ledger s)) (snd ` set (pendingRequests s))"
proof (cases e)
  case (RequestSeen rid url rt m now rnd)
  have "set (AList.update rid (length (ledger s)) (pendingRequests s)) \<subseteq>
        insert (rid, length (ledger s)) (set (pendingRequests s))"
    by (rule set_update_subset)
  thus ?thesis using RequestSeen
    by (auto simp: on_request_def Let_def ledger_def[symmetric])
next
  case (ResponseSeen rid url st)
  thus ?thesis by (auto simp: on_response_def AList.delete_eq split: option.splits)
next
  case (RequestFailed rid url rt m now rnd)
  thus ?thesis by (auto simp: on_requestfailed_def AList.delete_eq Let_def split: option.splits)
next
  case (Housekeeping now)
  thus ?thesis by (auto simp: cleanup_def Let_def)
qed (auto simp: value_getter_def wrapped_handler_def fetch_wrapper_def xhr_send_def
       report_mapping_def Let_def split: option.splits)

lemma map_of_in_ran: "map_of m k = Some v \<Longrightarrow> v \<in> snd ` set m"
  by (auto dest: map_of_SomeD intro: rev_image_eqI)

lemma nth_update_status:
  "i < length xs \<Longrightarrow>
   (xs[k := (xs ! k)\<lparr>r_status := v\<rparr>]) ! i = (if k = i then (xs ! i)\<lparr>r_status := v\<rparr> else xs ! i)"
  by simp

text \<open>One step, seen from a record that is already in the ledger.\<close>

lemma step_record:
  assumes "i < length (ledger s)"
  shows "i < length (ledger (step s e)) \<and>
         ledger (step s e) ! i = (ledger s ! i)\<lparr>r_status := r_status (ledger (step s e) ! i)\<rparr> \<and>
         (r_status (ledger (step s e) ! i) = r_status (ledger s ! i) \<or>
          r_status (ledger (step s e) ! i) = - 999 \<or>
          0 \<le> r_status (ledger (step s e) ! i)) \<and>
         (r_status (ledger s ! i) \<noteq> - 1 \<longrightarrow> r_status (ledger (step s e) ! i) \<noteq> - 1)"
proof (cases e)
  case (RequestSeen rid url rt m now rnd)
  thus ?thesis using assms by (simp add: ledger_on_request nth_append)
next
  case (ResponseSeen rid url st)
  thus ?thesis using assms
    by (auto simp: ledger_on_response nth_update_status split: option.splits)
next
  case (RequestFailed rid url rt m now rnd)
  thus ?thesis using assms
    by (auto simp: ledger_on_requestfailed nth_update_status nth_append split: option.splits)
qed (use assms in \<open>simp_all add: ledger_other del: step.simps\<close>)

lemma step_settled:
  assumes "i < length (ledger s)" "r_status (ledger s ! i) \<noteq> - 1"
    "i \<notin> snd ` set (pendingRequests s)"
  shows "ledger (step s e) ! i = ledger s ! i \<and> i \<notin> snd ` set (pendingRequests (step s e))"
proof -
  have p: "i \<notin> snd ` set (pendingRequests (step s e))"
    using pending_step[of s e] assms(1,3) by auto
  have "ledger (step s e) ! i = ledger s ! i"
  proof (cases e)
    case (RequestSeen rid url rt m now rnd)
    thus ?thesis using assms by (simp add: ledger_on_request nth_append)
  next
    case (ResponseSeen rid url st)
    thus ?thesis using assms
      by (auto simp: ledger_on_response nth_update_status
               dest: map_of_in_ran first_index_Some split: option.splits)
  next
    case (RequestFailed rid url rt m now rnd)
    thus ?thesis using assms
      by (auto simp: ledger_on_requestfailed nth_append nth_update_status
               dest: map_of_in_ran split: option.splits)
  qed (simp_all add: ledger_other del: step.simps)
  with p show ?thesis by simp
qed

lemma run_record:
  "i < length (ledger s) \<Longrightarrow>
   i < length (ledger (run s es)) \<and>
   ledger (run s es) ! i = (ledger s ! i)\<lparr>r_status := r_status (ledger (run s es) ! i)\<rparr> \<and>
   (r_status (ledger (run s es) ! i) = r_status (ledger s ! i) \<or>
    r_status (ledger (run s es) ! i) = - 999 \<or>
    0 \<le> r_status (ledger (run s es) ! i)) \<and>
   (r_status (ledger s ! i) \<noteq> - 1 \<longrightarrow> r_status (ledger (run s es) ! i) \<noteq> - 1)"
proof (induction es arbitrary: s)
  case Nil
  then show ?case by simp
next
  case (Cons e es)
  note st = step_record[OF Cons.prems, of e]
  hence lt: "i < length (ledger (step s e))" by simp
  note ih = Cons.IH[OF lt]
  let ?a = "ledger s ! i" and ?b = "ledger (step s e) ! i" and ?c = "ledger (run (step s e) es) ! i"
  have 1: "?c = ?a\<lparr>r_status := r_status ?c\<rparr>"
  proof -
    have "?c = ?b\<lparr>r_status := r_status ?c\<rparr>" using ih by simp
    also have "?b = ?a\<lparr>r_status := r_status ?b\<rparr>" using st by simp
    finally show ?thesis by simp
  qed
  have 2: "r_status ?c = r_status ?a \<or> r_status ?c = - 999 \<or> 0 \<le> r_status ?c"
    using st ih by auto
  have 3: "r_status ?a \<noteq> - 1 \<longrightarrow> r_status ?c \<noteq> - 1"
    using st ih by auto
  from ih 1 2 3 show ?case by simp
qed

lemma run_settled:
  "i < length (ledger s) \<Longrightarrow> r_status (ledger s ! i) \<noteq> - 1 \<Longrightarrow>
   i \<notin> snd ` set (pendingRequests s) \<Longrightarrow> ledger (run s es) ! i = ledger s ! i"
proof (induction es arbitrary: s)
  case Nil
  then show ?case by simp
next
  case (Cons e es)
  note st = step_settled[OF Cons.prems, of e]
  have "i < length (ledger (step s e))"
    using step_record[OF Cons.prems(1), of e] by simp
  moreover have "r_status (ledger (step s e) ! i) \<noteq> - 1"
    using st Cons.prems(2) by simp
  ultimately have "ledger (run (step s e) es) ! i = ledger (step s e) ! i"
    using st by (intro Cons.IH) simp_all
  thus ?case using st by simp
qed


lemma distinct_snd_update:
  "distinct (map snd m) \<Longrightarrow> v \<notin> snd ` set m \<Longrightarrow> distinct (map snd (AList.update k v m))"
proof (induction m)
  case Nil
  then show ?case by simp
next
  case (Cons p m)
  have sub: "snd ` set (AList.update k v m) \<subseteq> insert v (snd ` set m)"
    using set_update_subset[of k v m] by auto
  show ?case
  proof (cases "fst p = k")
    case True
    then show ?thesis using Cons.prems by auto
  next
    case False
    have "snd p \<notin> snd ` set (AList.update k v m)"
      using sub Cons.prems by auto
    then show ?thesis using False Cons by auto
  qed
qed

lemma length_ledger_step: "length (ledger s) \<le> length (ledger (step s e))"
proof (cases e)
  case (RequestSeen rid url rt m now rnd)
  thus ?thesis by (simp add: ledger_on_request)
next
  case (ResponseSeen rid url st)
  thus ?thesis by (simp add: ledger_on_response split: option.splits)
next
  case (RequestFailed rid url rt m now rnd)
  thus ?thesis by (simp add: ledger_on_requestfailed split: option.splits)
qed (simp_all add: ledger_other del: step.simps)

lemma pending_on_request:
  "pendingRequests (on_request rid url rt m now rnd s) =
     AList.update rid (length (ledger s)) (pendingRequests s)"
  by (simp add: on_request_def Let_def ledger_def[symmetric])

lemma distinct_snd_filter: "distinct (map snd m) \<Longrightarrow> distinct (map snd (filter P m))"
  by (simp add: distinct_map_filter)

lemma pending_distinct_step:
  assumes "pending_inv s"
  shows "distinct (map snd (pendingRequests (step s e)))"
proof (cases e)
  case (RequestSeen rid url rt m now rnd)
  have "length (ledger s) \<notin> snd ` set (pendingRequests s)"
    using assms by (auto simp: pending_inv_def)
  thus ?thesis using assms RequestSeen
    by (simp add: pending_on_request distinct_snd_update pending_inv_def)
next
  case (ResponseSeen rid url st)
  thus ?thesis using assms
    by (simp add: on_response_def AList.delete_eq distinct_snd_filter pending_inv_def
             split: option.splits)
next
  case (RequestFailed rid url rt m now rnd)
  thus ?thesis using assms
    by (simp add: on_requestfailed_def AList.delete_eq distinct_snd_filter pending_inv_def
                  Let_def split: option.splits)
next
  case (Housekeeping now)
  thus ?thesis using assms
    by (simp add: cleanup_def distinct_snd_filter pending_inv_def Let_def)
qed (use assms in \<open>simp_all add: value_getter_def wrapped_handler_def fetch_wrapper_def
       xhr_send_def report_mapping_def pending_inv_def Let_def split: option.splits\<close>)

lemma pending_keys_step:
  assumes "pending_inv s"
  shows "distinct (map fst (pendingRequests (step s e)))"
proof -
  have d: "distinct (map fst (pendingRequests s))"
    using assms by (simp add: pending_inv_def)
  show ?thesis
    using d
    by (cases e)
       (simp_all add: pending_on_request distinct_update distinct_delete on_response_def
          on_requestfailed_def cleanup_def value_getter_def wrapped_handler_def
          fetch_wrapper_def xhr_send_def report_mapping_def distinct_map_filter Let_def
          split: option.splits)
qed

lemma pending_inv_step: "pending_inv s \<Longrightarrow> pending_inv (step s e)"
proof -
  assume inv: "pending_inv s"
  have "\<forall>i\<in>snd ` set (pendingRequests (step s e)). i < length (ledger (step s e))"
  proof
    fix i assume "i \<in> snd ` set (pendingRequests (step s e))"
    hence "i = length (ledger s) \<and> i \<in> snd ` set (pendingRequests (step s e)) \<or>
           i \<in> snd ` set (pendingRequests s)"
      using pending_step[of s e] by auto
    thus "i < length (ledger (step s e))"
    proof
      assume a: "i = length (ledger s) \<and> i \<in> snd ` set (pendingRequests (step s e))"
      show ?thesis
      proof (cases "\<exists>rid url rt m now rnd. e = RequestSeen rid url rt m now rnd")
        case True
        thus ?thesis using a by (auto simp: ledger_on_request)
      next
        case False
        hence "snd ` set (pendingRequests (step s e)) \<subseteq> snd ` set (pendingRequests s)"
          by (cases e)
             (auto simp: on_response_def on_requestfailed_def cleanup_def AList.delete_eq
                value_getter_def wrapped_handler_def fetch_wrapper_def xhr_send_def
                report_mapping_def Let_def split: option.splits)
        hence "i \<in> snd ` set (pendingRequests s)" using a by auto
        thus ?thesis using inv a by (auto simp: pending_inv_def)
      qed
    next
      assume "i \<in> snd ` set (pendingRequests s)"
      hence "i < length (ledger s)" using inv by (auto simp: pending_inv_def)
      thus ?thesis using length_ledger_step[of s e] by simp
    qed
  qed
  thus ?thesis
    using pending_distinct_step[OF inv, of e] pending_keys_step[OF inv, of e]
    by (simp add: pending_inv_def)
qed

lemma pending_inv_run: "pending_inv s \<Longrightarrow> pending_inv (run s es)"
  by (induction es arbitrary: s) (simp_all add: pending_inv_step del: step.simps)

lemma pending_inv_reachable: "pending_inv (run new_scanner es)"
  by (rule pending_inv_run) (simp add: pending_inv_def new_scanner_def)

lemma delete_removes_ref:
  assumes "distinct (map snd m)" "map_of m k = Some i"
  shows "i \<notin> snd ` set (AList.delete k m)"
proof
  assume "i \<in> snd ` set (AList.delete k m)"
  then obtain k' where k': "(k', i) \<in> set m" "k' \<noteq> k"
    by (auto simp: AList.delete_eq)
  have "(k, i) \<in> set m" using assms(2) by (rule map_of_SomeD)
  with k' assms(1) show False
    by (metis (no_types, lifting) distinct_map inj_onD prod.inject snd_conv)
qed

text \<open>A write through the pending entry settles the record.\<close>

lemma resolved_through_pending:
  assumes "pending_inv s" "map_of (pendingRequests s) rid = Some i"
  shows "r_status (ledger (step s (ResponseSeen rid url st)) ! i) = int st \<and>
         ledger (run (step s (ResponseSeen rid url st)) es) ! i =
           ledger (step s (ResponseSeen rid url st)) ! i \<and>
         r_status (ledger (step s (RequestFailed rid url rt m now rnd)) ! i) = - 999 \<and>
         ledger (run (step s (RequestFailed rid url rt m now rnd)) es') ! i =
           ledger (step s (RequestFailed rid url rt m now rnd)) ! i"
proof -
  have i: "i < length (ledger s)"
    using assms by (auto simp: pending_inv_def dest: map_of_in_ran)
  have out: "i \<notin> snd ` set (AList.delete rid (pendingRequests s))"
    using assms by (intro delete_removes_ref) (simp_all add: pending_inv_def)
  let ?s1 = "step s (ResponseSeen rid url st)"
  have r1: "r_status (ledger ?s1 ! i) = int st" "i < length (ledger ?s1)"
    using assms(2) i by (simp_all add: ledger_on_response)
  have p1: "i \<notin> snd ` set (pendingRequests ?s1)"
    using assms(2) out by (simp add: on_response_def)
  have "r_status (ledger ?s1 ! i) \<noteq> - 1" using r1 by simp
  with r1 p1 have r2: "ledger (run ?s1 es) ! i = ledger ?s1 ! i"
    by (intro run_settled)
  let ?s2 = "step s (RequestFailed rid url rt m now rnd)"
  have r3: "r_status (ledger ?s2 ! i) = - 999" "i < length (ledger ?s2)"
    using assms(2) i by (simp_all add: ledger_on_requestfailed)
  have p3: "i \<notin> snd ` set (pendingRequests ?s2)"
    using assms(2) out by (simp add: on_requestfailed_def)
  have "r_status (ledger ?s2 ! i) \<noteq> - 1" using r3 by simp
  with r3 p3 have r4: "ledger (run ?s2 es') ! i = ledger ?s2 ! i"
    by (intro run_settled)
  from r1 r2 r3 r4 show ?thesis by simp
qed


text \<open>
  C4, as the code has it. A record that the request observer creates starts with status
  \<open>-1\<close>; a record that the failure observer creates, when it finds no pending entry
  for the request id, starts with \<open>-999\<close>; no other event creates a record or writes
  one. Along every run a record keeps its place and every field but the status, every
  status written is an HTTP status code or \<open>-999\<close>, and a status other than \<open>-1\<close>
  never becomes \<open>-1\<close> again. A record with a status other than \<open>-1\<close> that no
  pending entry refers to is never written again, and a record resolved through its
  pending entry (by a response or by a failure) keeps that status for good.
\<close>

theorem status_is_written_forward:
  assumes "i < length (ledger s)"
  shows "(\<exists>r. ledger (step s (RequestSeen rid url rt m now rnd)) = ledger s @ [r] \<and>
              r_status r = - 1) \<and>
         (map_of (pendingRequests s) rid0 = None \<longrightarrow>
            (\<exists>r. ledger (step s (RequestFailed rid0 url rt m now rnd)) = ledger s @ [r] \<and>
                 r_status r = - 999)) \<and>
         ((\<forall>rid'. \<not> about_request rid' e) \<longrightarrow> ledger (step s e) = ledger s) \<and>
         (i < length (ledger (run s es)) \<and>
          ledger (run s es) ! i =
            (ledger s ! i)\<lparr>r_status := r_status (ledger (run s es) ! i)\<rparr> \<and>
          (r_status (ledger (run s es) ! i) = r_status (ledger s ! i) \<or>
           r_status (ledger (run s es) ! i) = - 999 \<or>
           0 \<le> r_status (ledger (run s es) ! i)) \<and>
          (r_status (ledger s ! i) \<noteq> - 1 \<longrightarrow> r_status (ledger (run s es) ! i) \<noteq> - 1)) \<and>
         (r_status (ledger s ! i) \<noteq> - 1 \<and> i \<notin> snd ` set (pendingRequests s) \<longrightarrow>
            ledger (run s es) ! i = ledger s ! i) \<and>
         (pending_inv s \<and> map_of (pendingRequests s) rid = Some k \<longrightarrow>
            r_status (ledger (step s (ResponseSeen rid url st)) ! k) = int st \<and>
            ledger (run (step s (ResponseSeen rid url st)) es) ! k =
              ledger (step s (ResponseSeen rid url st)) ! k \<and>
            r_status (ledger (step s (RequestFailed rid url rt m now rnd)) ! k) = - 999 \<and>
            ledger (run (step s (RequestFailed rid url rt m now rnd)) es) ! k =
              ledger (step s (RequestFailed rid url rt m now rnd)) ! k)"
proof -
  have a: "\<exists>r. ledger (step s (RequestSeen rid url rt m now rnd)) = ledger s @ [r] \<and>
              r_status r = - 1"
    by (simp add: ledger_on_request)
  have b: "map_of (pendingRequests s) rid0 = None \<longrightarrow>
            (\<exists>r. ledger (step s (RequestFailed rid0 url rt m now rnd)) = ledger s @ [r] \<and>
                 r_status r = - 999)"
    by (simp add: ledger_on_requestfailed)
  have c: "(\<forall>rid'. \<not> about_request rid' e) \<longrightarrow> ledger (step s e) = ledger s"
    using ledger_other[of e s] by blast
  note d = run_record[OF assms, of es]
  have e: "r_status (ledger s ! i) \<noteq> - 1 \<and> i \<notin> snd ` set (pendingRequests s) \<longrightarrow>
            ledger (run s es) ! i = ledger s ! i"
    using run_settled[OF assms, of es] by blast
  have f: "pending_inv s \<and> map_of (pendingRequests s) rid = Some k \<longrightarrow>
            r_status (ledger (step s (ResponseSeen rid url st)) ! k) = int st \<and>
            ledger (run (step s (ResponseSeen rid url st)) es) ! k =
              ledger (step s (ResponseSeen rid url st)) ! k \<and>
            r_status (ledger (step s (RequestFailed rid url rt m now rnd)) ! k) = - 999 \<and>
            ledger (run (step s (RequestFailed rid url rt m now rnd)) es) ! k =
              ledger (step s (RequestFailed rid url rt m now rnd)) ! k"
    using resolved_through_pending[of s rid k url st es rt m now rnd es] by blast
  from a b c d e f show ?thesis by blast
qed

text \<open>
  C4 as stated fails: a request is seen and answered with 200, then the transport reports
  the same request as failed. The pending entry is gone, so the failure observer creates
  a second record, and that record has status \<open>-999\<close> from its creation.
\<close>

theorem failed_record_is_created_terminal:
  "(let s = run new_scanner
              [RequestSeen ''R1'' ''https://api.x/data'' ''fetch'' ''GET'' 2 ''bbb'',
               ResponseSeen ''R1'' ''https://api.x/data'' 200];
        s' = step s (RequestFailed ''R1'' ''https://api.x/data'' ''fetch'' ''GET'' 3 ''ccc'')
    in ledger s =
         [\<lparr>r_actionId = ''http_2_bbb'', r_url = ''https://api.x/data'',
            r_requestSource = ''fetch'', r_method = ''GET'', r_status = 200\<rparr>] \<and>
       ledger s' = ledger s @
         [\<lparr>r_actionId = ''failed_3_ccc'', r_url = ''https://api.x/data'',
            r_requestSource = ''fetch'', r_method = ''GET'', r_status = - 999\<rparr>] \<and>
       r_status (ledger s' ! 1) \<noteq> - 1)"
  by (simp add: eval_simps)

text \<open>
  What the statement above does not cover: a record that the url fallback of the response
  observer resolves while a pending entry still refers to it. Here a response with an
  unknown request id and the url of the pending request resolves the record to 200, and
  the response of the pending request itself then overwrites it with 404.
\<close>

lemma pending_record_is_written_twice:
  "(let s1 = run new_scanner
               [RequestSeen ''R1'' ''https://api.x/data'' ''fetch'' ''GET'' 2 ''bbb''];
        s2 = step s1 (ResponseSeen ''R2'' ''https://api.x/data'' 200);
        s3 = step s2 (ResponseSeen ''R1'' ''https://api.x/data'' 404)
    in length (ledger s3) = 1 \<and> r_status (ledger s1 ! 0) = - 1 \<and>
       r_status (ledger s2 ! 0) = 200 \<and> r_status (ledger s3 ! 0) = 404)"
  by (simp add: eval_simps first_index.simps)

theorem status_is_written_forward_witness:
  "(let s = run new_scanner
              [RequestSeen ''R1'' ''https://api.x/data'' ''fetch'' ''GET'' 2 ''bbb'',
               ResponseSeen ''R1'' ''https://api.x/data'' 200,
               RequestSeen ''R2'' ''https://api.x/more'' ''xhr'' ''POST'' 3 ''ccc''];
        es = [ResponseSeen ''R1'' ''https://api.x/data'' 404,
              RequestFailed ''R1'' ''https://api.x/data'' ''fetch'' ''GET'' 4 ''ddd'',
              ResponseSeen ''R7'' ''https://api.x/data'' 500,
              ResponseSeen ''R2'' ''https://api.x/more'' 500]
    in 0 < length (ledger s) \<and>
       r_status (ledger s ! 0) = 200 \<and> 0 \<notin> snd ` set (pendingRequests s) \<and>
       r_status (ledger (run s es) ! 0) = 200 \<and>
       pending_inv s \<and> map_of (pendingRequests s) ''R2'' = Some 1 \<and>
       map_of (pendingRequests s) ''R9'' = None \<and>
       r_status (ledger (step s (ResponseSeen ''R2'' ''https://api.x/more'' 204)) ! 1) = 204 \<and>
       r_status (ledger (run (step s (ResponseSeen ''R2'' ''https://api.x/more'' 204)) es) ! 1) = 204)"
proof -
  let ?es0 = "[RequestSeen ''R1'' ''https://api.x/data'' ''fetch'' ''GET'' 2 ''bbb'',
               ResponseSeen ''R1'' ''https://api.x/data'' 200,
               RequestSeen ''R2'' ''https://api.x/more'' ''xhr'' ''POST'' 3 ''ccc'']"
  let ?s = "run new_scanner ?es0"
  let ?es = "[ResponseSeen ''R1'' ''https://api.x/data'' 404,
              RequestFailed ''R1'' ''https://api.x/data'' ''fetch'' ''GET'' 4 ''ddd'',
              ResponseSeen ''R7'' ''https://api.x/data'' 500,
              ResponseSeen ''R2'' ''https://api.x/more'' 500]"
  have led: "ledger ?s =
     [\<lparr>r_actionId = ''http_2_bbb'', r_url = ''https://api.x/data'',
        r_requestSource = ''fetch'', r_method = ''GET'', r_status = 200\<rparr>,
      \<lparr>r_actionId = ''http_3_ccc'', r_url = ''https://api.x/more'',
        r_requestSource = ''xhr'', r_method = ''POST'', r_status = - 1\<rparr>]"
    by (simp add: eval_simps)
  have pen: "pendingRequests ?s = [(''R2'', 1)]"
    by (simp add: eval_simps)
  have h1: "0 < length (ledger ?s)" unfolding led by simp
  have h2: "r_status (ledger ?s ! 0) = 200" unfolding led by simp
  have h3: "0 \<notin> snd ` set (pendingRequests ?s)" unfolding pen by simp
  have h4: "pending_inv ?s" by (rule pending_inv_reachable)
  have h5: "map_of (pendingRequests ?s) ''R2'' = Some 1" unfolding pen by simp
  have h6: "map_of (pendingRequests ?s) ''R9'' = None" unfolding pen by simp
  note main = status_is_written_forward[OF h1, of "''R2''" "''https://api.x/more''"
      "''xhr''" "''POST''" 3 "''ccc''" "''R9''" "CleanupTimer []" ?es 1 204]
  from main h2 h3 have c1: "ledger (run ?s ?es) ! 0 = ledger ?s ! 0"
    by (simp del: run_Cons run_Nil step.simps)
  from main h4 h5 have c2:
    "r_status (ledger (step ?s (ResponseSeen ''R2'' ''https://api.x/more'' 204)) ! 1) = 204 \<and>
     ledger (run (step ?s (ResponseSeen ''R2'' ''https://api.x/more'' 204)) ?es) ! 1 =
       ledger (step ?s (ResponseSeen ''R2'' ''https://api.x/more'' 204)) ! 1"
    by (simp del: run_Cons run_Nil step.simps)
  show ?thesis
    unfolding Let_def using h1 h2 h3 h4 h5 h6 c1 c2 by (simp del: run_Cons run_Nil step.simps)
qed


subsection \<open>From the cause to the request record\<close>








text \<open>
  What the statement of C1 does not cover: a call whose url the observer sees in another
  spelling than the wrapper reported. The page fetches \<open>/api/data\<close> while a cause is
  current; the wrapper reports that string, the transport reports the request under the
  resolved url, and the observer finds no entry for it.
\<close>

lemma relative_url_is_unlinked:
  "(let s1 = run new_scanner [ValueRead el0 1000 ''aaa'', Fetch (InputString ''/api/data'')];
        s2 = step s1 (RequestSeen ''R1'' ''https://site.x/api/data'' ''fetch'' ''GET'' 1001 ''ccc'')
    in currentActionId (page s1) = Some ''action_1000_aaa'' \<and>
       effects s1 = [MappingReported ''/api/data'' ''action_1000_aaa'',
                     FetchDispatched (InputString ''/api/data'')] \<and>
       urlActionMappings s2 = [(''/api/data'', ''action_1000_aaa'')] \<and>
       ledger s2 = [\<lparr>r_actionId = ''http_1001_ccc'', r_url = ''https://site.x/api/data'',
                      r_requestSource = ''fetch'', r_method = ''GET'', r_status = - 1\<rparr>])"
  by (simp add: eval_simps)

text \<open>
  The cause of an \<open>XMLHttpRequest\<close> is the one current at \<open>open\<close>: a request opened
  under one cause and sent while a later cause is current is reported, and recorded, under
  the earlier one.
\<close>

lemma xhr_keeps_cause_of_open:
  "(let s1 = run new_scanner
               [ValueRead el0 1000 ''aaa'', XhrOpen 7 ''https://api.x/data'',
                ValueRead el0 1010 ''bbb'', XhrSend 7];
        s2 = step s1 (RequestSeen ''R1'' ''https://api.x/data'' ''xhr'' ''POST'' 1011 ''ccc'')
    in currentActionId (page s1) = Some ''action_1010_bbb'' \<and>
       effects s1 = [MappingReported ''https://api.x/data'' ''action_1000_aaa'', XhrDispatched 7] \<and>
       ledger s2 = [\<lparr>r_actionId = ''action_1000_aaa'', r_url = ''https://api.x/data'',
                      r_requestSource = ''xhr'', r_method = ''POST'', r_status = - 1\<rparr>])"
  by (simp add: eval_simps)


subsection \<open>A call that fails\<close>

lemma map_of_filter_distinct:
  "distinct (map fst m) \<Longrightarrow>
   map_of (filter P m) k = (case map_of m k of
                              Some v \<Rightarrow> if P (k, v) then Some v else None
                            | None \<Rightarrow> None)"
proof (induction m)
  case Nil
  then show ?case by simp
next
  case (Cons p m)
  obtain k' v' where p: "p = (k', v')" by (cases p)
  have notin: "k' \<notin> fst ` set m" using Cons.prems p by auto
  hence none: "map_of m k' = None" by (simp add: map_of_eq_None_iff)
  have none': "map_of (filter P m) k' = None"
    using notin by (auto simp: map_of_eq_None_iff)
  show ?case
    using Cons p none none' by (auto split: option.splits)
qed

lemma pending_key_step:
  assumes "pending_inv s" "\<not> about_request rid e"
  shows "map_of (pendingRequests (step s e)) rid = map_of (pendingRequests s) rid \<or>
         map_of (pendingRequests (step s e)) rid = None"
proof -
  have d: "distinct (map fst (pendingRequests s))"
    using assms(1) by (simp add: pending_inv_def)
  show ?thesis
  proof (cases e)
    case (RequestSeen rid' url rt m now rnd)
    thus ?thesis using assms(2) by (simp add: pending_on_request update_conv')
  next
    case (ResponseSeen rid' url st)
    thus ?thesis using assms(2)
      by (simp add: on_response_def delete_conv' split: option.splits)
  next
    case (RequestFailed rid' url rt m now rnd)
    thus ?thesis using assms(2)
      by (simp add: on_requestfailed_def delete_conv' Let_def split: option.splits)
  next
    case (Housekeeping now)
    thus ?thesis using d
      by (simp add: cleanup_def Let_def map_of_filter_distinct split: option.splits)
  qed (simp_all add: value_getter_def wrapped_handler_def fetch_wrapper_def xhr_send_def
         report_mapping_def Let_def split: option.splits)
qed

lemma pending_key_run:
  "pending_inv s \<Longrightarrow> \<forall>e\<in>set es. \<not> about_request rid e \<Longrightarrow>
   map_of (pendingRequests (run s es)) rid = map_of (pendingRequests s) rid \<or>
   map_of (pendingRequests (run s es)) rid = None"
proof (induction es arbitrary: s)
  case Nil
  then show ?case by simp
next
  case (Cons e es)
  have inv: "pending_inv (step s e)" using Cons.prems(1) by (rule pending_inv_step)
  have 1: "map_of (pendingRequests (step s e)) rid = map_of (pendingRequests s) rid \<or>
         map_of (pendingRequests (step s e)) rid = None"
    using Cons.prems by (intro pending_key_step) simp_all
  have 2: "map_of (pendingRequests (run (step s e) es)) rid =
             map_of (pendingRequests (step s e)) rid \<or>
           map_of (pendingRequests (run (step s e) es)) rid = None"
    using Cons.prems(2) by (intro Cons.IH[OF inv]) simp
  from 1 2 show ?case by auto
qed

text \<open>
  C5, as the code has it. In a state a scan reaches, let the store map the url of a call
  to a cause \<open>a\<close> that has been reported as an action. Let the request be seen, then
  any events that are not about this request id, then the failure of the request. If the
  pending entry is still there, or else if the store still maps the url to \<open>a\<close>, the
  ledger then holds a record with the id \<open>a\<close>, the url and status \<open>-999\<close>, and it
  is not among the unlinked requests. The same holds when the failure arrives without the
  request ever having been seen. Every observer is a total function of the state: there
  is no branch that raises.
\<close>

theorem blocked_call_is_recorded:
  assumes "map_of (urlActionMappings (run new_scanner es0)) url = Some a"
    and "a \<in> set (actionIdSet (aggregator (run new_scanner es0)))"
    and "\<forall>e\<in>set gap. \<not> about_request rid e"
  shows "(let s1 = step (run new_scanner es0) (RequestSeen rid url rt m now rnd);
              s2 = run s1 gap;
              s3 = step s2 (RequestFailed rid url rt' m' now' rnd')
          in (map_of (pendingRequests s2) rid = None \<longrightarrow>
                map_of (urlActionMappings s2) url = Some a) \<longrightarrow>
             (\<exists>r\<in>set (ledger s3).
                r_actionId r = a \<and> r_url r = url \<and> r_status r = - 999 \<and>
                r \<notin> set (getUnlinkedRequests (aggregator s3)))) \<and>
         (map_of (pendingRequests (run new_scanner es0)) rid = None \<longrightarrow>
            (let s' = step (run new_scanner es0) (RequestFailed rid url rt m now rnd)
             in ledger s' = ledger (run new_scanner es0) @
                  [\<lparr>r_actionId = a, r_url = url, r_requestSource = rt, r_method = m,
                     r_status = - 999\<rparr>] \<and>
                last (ledger s') \<notin> set (getUnlinkedRequests (aggregator s'))))"
proof -
  define s where "s = run new_scanner es0"
  define s1 where "s1 = step s (RequestSeen rid url rt m now rnd)"
  define s2 where "s2 = run s1 gap"
  define s3 where "s3 = step s2 (RequestFailed rid url rt' m' now' rnd')"
  define i where "i = length (ledger s)"
  define rec where "rec = \<lparr>r_actionId = a, r_url = url, r_requestSource = rt, r_method = m,
                            r_status = - 1\<rparr>"
  have s1r: "s1 = run new_scanner (es0 @ [RequestSeen rid url rt m now rnd])"
    by (simp add: s1_def s_def)
  have l1: "ledger s1 = ledger s @ [rec]"
    unfolding s1_def rec_def using assms(1) by (simp add: s_def ledger_on_request)
  have p1: "map_of (pendingRequests s1) rid = Some i"
    unfolding s1_def i_def by (simp add: pending_on_request update_conv')
  have i1: "i < length (ledger s1)" "ledger s1 ! i = rec"
    unfolding l1 i_def by simp_all
  have inv1: "pending_inv s1" unfolding s1r by (rule pending_inv_reachable)
  note rr = run_record[OF i1(1), of gap, folded s2_def]
  have i2: "i < length (ledger s2)" using rr by simp
  have r2: "r_actionId (ledger s2 ! i) = a" "r_url (ledger s2 ! i) = url"
  proof -
    have "ledger s2 ! i = rec\<lparr>r_status := r_status (ledger s2 ! i)\<rparr>"
      using rr i1(2) by simp
    hence "r_actionId (ledger s2 ! i) = r_actionId rec \<and> r_url (ledger s2 ! i) = r_url rec"
      by (metis Request.select_convs(1,2) Request.surjective Request.update_convs(5))
    thus "r_actionId (ledger s2 ! i) = a" "r_url (ledger s2 ! i) = url"
      by (simp_all add: rec_def)
  qed
  have p2: "map_of (pendingRequests s2) rid = Some i \<or> map_of (pendingRequests s2) rid = None"
    unfolding s2_def using pending_key_run[OF inv1 assms(3)] p1 by simp
  have am: "\<And>es. a \<in> set (actionIdSet (aggregator (run s es)))"
    using assms(2) unfolding s_def by (rule actionIdSet_run_mono)
  have a3: "a \<in> set (actionIdSet (aggregator s3))"
  proof -
    have "s3 = run s (RequestSeen rid url rt m now rnd # gap @ [RequestFailed rid url rt' m' now' rnd'])"
      by (simp add: s3_def s2_def s1_def)
    thus ?thesis using am by (simp del: run_Cons run_append step.simps)
  qed
  have main: "\<exists>r\<in>set (ledger s3).
                r_actionId r = a \<and> r_url r = url \<and> r_status r = - 999 \<and>
                r \<notin> set (getUnlinkedRequests (aggregator s3))"
    if h: "map_of (pendingRequests s2) rid = None \<longrightarrow> map_of (urlActionMappings s2) url = Some a"
  proof -
    have "\<exists>r\<in>set (ledger s3). r_actionId r = a \<and> r_url r = url \<and> r_status r = - 999"
      using p2
    proof
      assume some: "map_of (pendingRequests s2) rid = Some i"
      have l3: "ledger s3 = (ledger s2)[i := (ledger s2 ! i)\<lparr>r_status := - 999\<rparr>]"
        unfolding s3_def using some by (simp add: ledger_on_requestfailed)
      have "(ledger s2 ! i)\<lparr>r_status := - 999\<rparr> \<in> set (ledger s3)"
        unfolding l3 using i2 by (simp add: set_update_memI)
      thus ?thesis using r2 by (intro bexI[of _ "(ledger s2 ! i)\<lparr>r_status := - 999\<rparr>"]) simp_all
    next
      assume none: "map_of (pendingRequests s2) rid = None"
      hence "map_of (urlActionMappings s2) url = Some a" using h by simp
      hence "ledger s3 = ledger s2 @ [\<lparr>r_actionId = a, r_url = url, r_requestSource = rt',
                r_method = m', r_status = - 999\<rparr>]"
        unfolding s3_def using none by (simp add: ledger_on_requestfailed)
      thus ?thesis by simp
    qed
    thus ?thesis using a3 by (auto simp: getUnlinkedRequests_def)
  qed
  have fb: "ledger (step s (RequestFailed rid url rt m now rnd)) = ledger s @
                  [\<lparr>r_actionId = a, r_url = url, r_requestSource = rt, r_method = m,
                     r_status = - 999\<rparr>] \<and>
            last (ledger (step s (RequestFailed rid url rt m now rnd))) \<notin>
              set (getUnlinkedRequests (aggregator (step s (RequestFailed rid url rt m now rnd))))"
    if none: "map_of (pendingRequests s) rid = None"
  proof -
    have l: "ledger (step s (RequestFailed rid url rt m now rnd)) = ledger s @
                  [\<lparr>r_actionId = a, r_url = url, r_requestSource = rt, r_method = m,
                     r_status = - 999\<rparr>]"
      using none assms(1) by (simp add: s_def ledger_on_requestfailed)
    have "a \<in> set (actionIdSet (aggregator (run s [RequestFailed rid url rt m now rnd])))"
      by (rule am)
    thus ?thesis using l by (simp add: getUnlinkedRequests_def del: step.simps)
  qed
  from main fb show ?thesis
    unfolding Let_def s3_def s2_def s1_def s_def by blast
qed


lemmas parse_simps =
  stale_def parseInt_def parse_unsigned_def parse_digits_def is_digit_of_def digit_value_def
  digits_value_def is_space_def

lemma stale_example:
  "stale 100000 \<lparr>r_actionId = ''action_1000_aaa'', r_url = u, r_requestSource = t,
                   r_method = m, r_status = v\<rparr>"
  "\<not> stale (- 298000) \<lparr>r_actionId = ''action_1000_aaa'', r_url = u, r_requestSource = t,
                   r_method = m, r_status = v\<rparr>"
  by (simp_all add: parse_simps)

theorem blocked_call_is_recorded_witness:
  "(let s = run new_scanner
              [ValueRead el0 1000 ''aaa'', Fetch (InputString ''https://evil.x/collect'')];
        s1 = step s (RequestSeen ''R1'' ''https://evil.x/collect'' ''fetch'' ''POST'' 1001 ''rrr'');
        s2 = run s1 [Housekeeping 2000, ResponseSeen ''R2'' ''https://other.x/'' 200];
        s3 = step s2 (RequestFailed ''R1'' ''https://evil.x/collect'' ''fetch'' ''POST'' 2500 ''fff'')
    in map_of (urlActionMappings s) ''https://evil.x/collect'' = Some ''action_1000_aaa'' \<and>
       ''action_1000_aaa'' \<in> set (actionIdSet (aggregator s)) \<and>
       ledger s3 = [\<lparr>r_actionId = ''action_1000_aaa'', r_url = ''https://evil.x/collect'',
                      r_requestSource = ''fetch'', r_method = ''POST'', r_status = - 999\<rparr>] \<and>
       getUnlinkedRequests (aggregator s3) = [])"
proof -
  let ?U = "''https://evil.x/collect''"
  let ?es0 = "[ValueRead el0 1000 ''aaa'', Fetch (InputString ?U)]"
  let ?gap = "[Housekeeping 2000, ResponseSeen ''R2'' ''https://other.x/'' 200]"
  let ?s = "run new_scanner ?es0"
  let ?s1 = "step ?s (RequestSeen ''R1'' ?U ''fetch'' ''POST'' 1001 ''rrr'')"
  let ?s2 = "run ?s1 ?gap"
  let ?s3 = "step ?s2 (RequestFailed ''R1'' ?U ''fetch'' ''POST'' 2500 ''fff'')"
  have h1: "map_of (urlActionMappings ?s) ?U = Some ''action_1000_aaa''"
    by (simp add: eval_simps)
  have h2: "''action_1000_aaa'' \<in> set (actionIdSet (aggregator ?s))"
    by (simp add: eval_simps)
  have h3: "\<forall>e\<in>set ?gap. \<not> about_request ''R1'' e"
    by simp
  have p2: "pendingRequests ?s2 = [(''R1'', 0)]"
    by (simp add: eval_simps parse_simps)
  have l3: "ledger ?s3 = [\<lparr>r_actionId = ''action_1000_aaa'', r_url = ?U,
                      r_requestSource = ''fetch'', r_method = ''POST'', r_status = - 999\<rparr>]"
    by (simp add: eval_simps parse_simps)
  have h4: "map_of (pendingRequests ?s2) ''R1'' = None \<longrightarrow>
            map_of (urlActionMappings ?s2) ?U = Some ''action_1000_aaa''"
    unfolding p2 by simp
  note main = blocked_call_is_recorded[OF h1 h2 h3, of "''fetch''" "''POST''" 1001 "''rrr''"
       "''fetch''" "''POST''" 2500 "''fff''", unfolded Let_def, THEN conjunct1]
  have "\<exists>r\<in>set (ledger ?s3). r_actionId r = ''action_1000_aaa'' \<and> r_url r = ?U \<and>
          r_status r = - 999 \<and> r \<notin> set (getUnlinkedRequests (aggregator ?s3))"
    by (rule mp[OF main h4])
  hence "\<exists>r\<in>set (ledger ?s3). r \<notin> set (getUnlinkedRequests (aggregator ?s3))"
    by blast
  hence "getUnlinkedRequests (aggregator ?s3) = []"
    unfolding l3 using l3 by (auto simp: getUnlinkedRequests_def ledger_def
        simp del: run_Cons run_Nil step.simps)
  with h1 h2 l3 show ?thesis
    unfolding Let_def by blast
qed


text \<open>
  C5 as stated fails. A cause fires, the page fetches a url (reported before the
  dispatch), and the request is seen and linked. The page goes on to fetch 50 other urls.
  More than five minutes later the housekeeping sweep drops the pending entry as stale and
  trims the store to its 25 newest entries; then the request fails. The failure observer
  finds neither the pending entry nor the url, and records the failure under a
  \<open>failed_\<close> id: no record with the id of the cause has status \<open>-999\<close>.
\<close>

theorem late_failure_loses_link:
  "(let s0 = run new_scanner
               [ValueRead el0 1000 ''aaa'', Fetch (InputString ''https://api.x/data'')];
        s = run s0
              ([RequestSeen ''R1'' ''https://api.x/data'' ''fetch'' ''POST'' 1001 ''rrr''] @
               burst 50 @ [Housekeeping 400000]);
        s' = step s (RequestFailed ''R1'' ''https://api.x/data'' ''fetch'' ''POST'' 400001 ''fff'')
    in effects s0 = [MappingReported ''https://api.x/data'' ''action_1000_aaa'',
                     FetchDispatched (InputString ''https://api.x/data'')] \<and>
       ledger s' =
         [\<lparr>r_actionId = ''action_1000_aaa'', r_url = ''https://api.x/data'',
            r_requestSource = ''fetch'', r_method = ''POST'', r_status = - 1\<rparr>,
          \<lparr>r_actionId = ''failed_400001_fff'', r_url = ''https://api.x/data'',
            r_requestSource = ''fetch'', r_method = ''POST'', r_status = - 999\<rparr>] \<and>
       \<not> (\<exists>r\<in>set (ledger s'). r_actionId r = ''action_1000_aaa'' \<and> r_status r = - 999))"
proof -
  define U where "U = ''https://api.x/data''"
  define s0 where "s0 = run new_scanner [ValueRead el0 1000 ''aaa'', Fetch (InputString U)]"
  define s1 where "s1 = step s0 (RequestSeen ''R1'' U ''fetch'' ''POST'' 1001 ''rrr'')"
  define sb where "sb = run s1 (burst 50)"
  define s where "s = step sb (Housekeeping 400000)"
  define s' where "s' = step s (RequestFailed ''R1'' U ''fetch'' ''POST'' 400001 ''fff'')"
  define tl where "tl = map (\<lambda>k. (burst_url k, ''action_1000_aaa'')) [0..<50]"
  define rec0 where "rec0 = \<lparr>r_actionId = ''action_1000_aaa'', r_url = U,
            r_requestSource = ''fetch'', r_method = ''POST'', r_status = - 1\<rparr>"
  have e0: "effects s0 = [MappingReported U ''action_1000_aaa'', FetchDispatched (InputString U)]"
    by (simp add: s0_def U_def eval_simps)
  have p1: "currentActionId (page s1) = Some ''action_1000_aaa''"
    and m1: "urlActionMappings s1 = [(U, ''action_1000_aaa'')]"
    and q1: "pendingRequests s1 = [(''R1'', 0)]"
    and l1: "ledger s1 = [rec0]"
    by (simp_all add: s1_def s0_def U_def rec0_def eval_simps)
  have fresh: "\<forall>k<50. burst_url k \<notin> fst ` set (urlActionMappings s1)"
    unfolding m1 U_def by simp
  note b = burst_run[of s1 "''action_1000_aaa''" 50, OF p1 _ _ fresh, folded sb_def]
  have mb: "urlActionMappings sb = (U, ''action_1000_aaa'') # tl"
    and qb: "pendingRequests sb = [(''R1'', 0)]"
    and lb: "ledger sb = [rec0]"
    using b l1 by (simp_all add: m1 q1 tl_def ledger_def)
  have ltl: "length tl = 50" by (simp add: tl_def)
  have dtl: "drop 25 tl = map (\<lambda>k. (burst_url k, ''action_1000_aaa'')) [25..<50]"
    unfolding tl_def by (simp add: drop_map_upt del: upt_Suc)
  have dist: "distinct (map fst (drop 25 tl))"
    unfolding dtl
    by (auto simp: distinct_map comp_def inj_on_def dest: burst_url_inj simp del: upt_Suc)
  have st: "stale 100000 rec0"
    unfolding rec0_def by (rule stale_example)
  have m: "urlActionMappings s = drop 25 tl"
    using dist by (simp add: s_def cleanup_def mb ltl slice_last_def map_rebuild_distinct Let_def)
  have q: "pendingRequests s = []"
    using st lb by (simp add: s_def cleanup_def qb Let_def ledger_def)
  have l: "ledger s = [rec0]"
    using lb by (simp add: s_def cleanup_def ledger_def Let_def)
  have n: "map_of (urlActionMappings s) U = None"
    unfolding m dtl U_def by (rule map_of_burst_None)
  have l': "ledger s' = [rec0, \<lparr>r_actionId = ''failed_400001_fff'', r_url = U,
            r_requestSource = ''fetch'', r_method = ''POST'', r_status = - 999\<rparr>]"
    unfolding s'_def using n q l by (simp add: ledger_on_requestfailed eval_simps)
  have no: "\<not> (\<exists>r\<in>set (ledger s'). r_actionId r = ''action_1000_aaa'' \<and> r_status r = - 999)"
    unfolding l' by (simp add: rec0_def)
  have s: "s = run s0 ([RequestSeen ''R1'' U ''fetch'' ''POST'' 1001 ''rrr''] @
               burst 50 @ [Housekeeping 400000])"
    by (simp add: s_def sb_def s1_def del: step.simps)
  show ?thesis
    unfolding Let_def
    using e0 l' no
    unfolding s'_def s s0_def U_def rec0_def
    by blast
qed

end
